theory Spec2Isabelle
  imports Complex_Main "HOL-Library.Word" "HOL-Library.Multiset"
begin

section \<open>JavaScript numbers\<close>

text \<open>
  The program computes with JavaScript numbers (IEEE doubles).  They are modelled as the
  real numbers extended with the three special values a double can take.  Rounding and
  overflow of finite values are not modelled (a finite operation on finite values is the
  exact real operation), and the sign of zero is not modelled (every zero is \<open>+0\<close>).
  The special values follow the IEEE rules the language prescribes.
\<close>

datatype jsnum = Fin real | PInf | NInf | NaN

fun isFin :: "jsnum \<Rightarrow> bool" where
  "isFin (Fin r) = True"
| "isFin _ = False"

fun jneg :: "jsnum \<Rightarrow> jsnum" where
  "jneg (Fin a) = Fin (- a)"
| "jneg PInf = NInf"
| "jneg NInf = PInf"
| "jneg NaN = NaN"

fun jadd :: "jsnum \<Rightarrow> jsnum \<Rightarrow> jsnum" where
  "jadd (Fin a) (Fin b) = Fin (a + b)"
| "jadd NaN _ = NaN"
| "jadd _ NaN = NaN"
| "jadd PInf NInf = NaN"
| "jadd NInf PInf = NaN"
| "jadd PInf _ = PInf"
| "jadd _ PInf = PInf"
| "jadd NInf _ = NInf"
| "jadd _ NInf = NInf"

definition jsub :: "jsnum \<Rightarrow> jsnum \<Rightarrow> jsnum" where
  "jsub a b = jadd a (jneg b)"

fun jmul :: "jsnum \<Rightarrow> jsnum \<Rightarrow> jsnum" where
  "jmul (Fin a) (Fin b) = Fin (a * b)"
| "jmul NaN _ = NaN"
| "jmul _ NaN = NaN"
| "jmul PInf (Fin b) = (if b = 0 then NaN else if 0 < b then PInf else NInf)"
| "jmul NInf (Fin b) = (if b = 0 then NaN else if 0 < b then NInf else PInf)"
| "jmul (Fin a) PInf = (if a = 0 then NaN else if 0 < a then PInf else NInf)"
| "jmul (Fin a) NInf = (if a = 0 then NaN else if 0 < a then NInf else PInf)"
| "jmul PInf PInf = PInf"
| "jmul PInf NInf = NInf"
| "jmul NInf PInf = NInf"
| "jmul NInf NInf = PInf"

fun jdiv :: "jsnum \<Rightarrow> jsnum \<Rightarrow> jsnum" where
  "jdiv (Fin a) (Fin b) =
     (if b \<noteq> 0 then Fin (a / b)
      else if a = 0 then NaN
      else if 0 < a then PInf else NInf)"
| "jdiv NaN _ = NaN"
| "jdiv _ NaN = NaN"
| "jdiv (Fin a) PInf = Fin 0"
| "jdiv (Fin a) NInf = Fin 0"
| "jdiv PInf (Fin b) = (if 0 \<le> b then PInf else NInf)"
| "jdiv NInf (Fin b) = (if 0 \<le> b then NInf else PInf)"
| "jdiv PInf PInf = NaN"
| "jdiv PInf NInf = NaN"
| "jdiv NInf PInf = NaN"
| "jdiv NInf NInf = NaN"

fun Math_sqrt :: "jsnum \<Rightarrow> jsnum" where
  "Math_sqrt (Fin a) = (if a < 0 then NaN else Fin (sqrt a))"
| "Math_sqrt PInf = PInf"
| "Math_sqrt NInf = NaN"
| "Math_sqrt NaN = NaN"

fun Math_min :: "jsnum \<Rightarrow> jsnum \<Rightarrow> jsnum" where
  "Math_min (Fin a) (Fin b) = Fin (min a b)"
| "Math_min NaN _ = NaN"
| "Math_min _ NaN = NaN"
| "Math_min NInf _ = NInf"
| "Math_min _ NInf = NInf"
| "Math_min PInf b = b"
| "Math_min a PInf = a"

fun Math_max :: "jsnum \<Rightarrow> jsnum \<Rightarrow> jsnum" where
  "Math_max (Fin a) (Fin b) = Fin (max a b)"
| "Math_max NaN _ = NaN"
| "Math_max _ NaN = NaN"
| "Math_max PInf _ = PInf"
| "Math_max _ PInf = PInf"
| "Math_max NInf b = b"
| "Math_max a NInf = a"

fun Math_floor :: "jsnum \<Rightarrow> jsnum" where
  "Math_floor (Fin a) = Fin (of_int \<lfloor>a\<rfloor>)"
| "Math_floor PInf = PInf"
| "Math_floor NInf = NInf"
| "Math_floor NaN = NaN"

text \<open>
  \<open>Math.pow(x, 0.5)\<close>, the only exponent the program uses: the square root on the
  non-negative numbers, \<open>NaN\<close> on a negative finite base, and \<open>+Infinity\<close> on both
  infinities.
\<close>

fun Math_pow_half :: "jsnum \<Rightarrow> jsnum" where
  "Math_pow_half (Fin a) = (if a < 0 then NaN else Fin (sqrt a))"
| "Math_pow_half PInf = PInf"
| "Math_pow_half NInf = PInf"
| "Math_pow_half NaN = NaN"

text \<open>The comparisons \<open>a < b\<close>, \<open>a > b\<close> and \<open>a <= b\<close>: false whenever a side is \<open>NaN\<close>.\<close>

fun js_lt :: "jsnum \<Rightarrow> jsnum \<Rightarrow> bool" where
  "js_lt (Fin a) (Fin b) = (a < b)"
| "js_lt NaN _ = False"
| "js_lt _ NaN = False"
| "js_lt PInf _ = False"
| "js_lt _ NInf = False"
| "js_lt _ PInf = True"
| "js_lt NInf _ = True"

definition js_gt :: "jsnum \<Rightarrow> jsnum \<Rightarrow> bool" where
  "js_gt a b = js_lt b a"

fun js_le :: "jsnum \<Rightarrow> jsnum \<Rightarrow> bool" where
  "js_le (Fin a) (Fin b) = (a \<le> b)"
| "js_le NaN _ = False"
| "js_le _ NaN = False"
| "js_le NInf _ = True"
| "js_le _ PInf = True"
| "js_le _ _ = False"

text \<open>Truthiness of a number: \<open>0\<close> and \<open>NaN\<close> are falsy.\<close>

fun truthy :: "jsnum \<Rightarrow> bool" where
  "truthy (Fin a) = (a \<noteq> 0)"
| "truthy NaN = False"
| "truthy _ = True"

text \<open>
  \<open>v || d\<close> where \<open>v\<close> is the result of an array read: \<open>None\<close> stands for
  \<open>undefined\<close> (a read past the end), which is falsy.
\<close>

fun orElse :: "jsnum option \<Rightarrow> jsnum \<Rightarrow> jsnum" where
  "orElse None d = d"
| "orElse (Some v) d = (if truthy v then v else d)"

text \<open>
  Storing a number into a \<open>Uint8ClampedArray\<close>: \<open>NaN\<close> becomes \<open>0\<close>, the value is
  clamped to \<open>[0, 255]\<close> and rounded to the nearest integer, ties to even.
\<close>

definition roundHalfEven :: "real \<Rightarrow> int" where
  "roundHalfEven a =
     (let f = \<lfloor>a\<rfloor>
      in if a - of_int f < 1 / 2 then f
         else if 1 / 2 < a - of_int f then f + 1
         else if even f then f else f + 1)"

fun toUint8Clamp :: "jsnum \<Rightarrow> 8 word" where
  "toUint8Clamp (Fin a) =
     (if a \<le> 0 then 0 else if 255 \<le> a then 255 else word_of_int (roundHalfEven a))"
| "toUint8Clamp PInf = 255"
| "toUint8Clamp NInf = 0"
| "toUint8Clamp NaN = 0"

section \<open>The offline spectrogram: \<open>generateFullSpectrogram\<close>\<close>

definition windowSize :: nat where
  "windowSize = 1024"

definition hopSize :: nat where
  "hopSize = 256"

definition fftSize :: nat where
  "fftSize = 128"

text \<open>\<open>audioData.slice(a, b)\<close> for \<open>0 \<le> a \<le> b\<close>: the elements that exist in that range.\<close>

definition slice :: "'a list \<Rightarrow> nat \<Rightarrow> nat \<Rightarrow> 'a list" where
  "slice xs a b = take (b - a) (drop a xs)"

text \<open>
  Reading element \<open>j\<close> of a numeric array inside an arithmetic expression: an index past
  the end reads \<open>undefined\<close>, which arithmetic turns into \<open>NaN\<close>.
\<close>

definition numAt :: "jsnum list \<Rightarrow> nat \<Rightarrow> jsnum" where
  "numAt xs j = (if j < length xs then xs ! j else NaN)"

text \<open>The Hamming coefficient of position \<open>j\<close>; \<open>j\<close> is a loop counter, hence finite.\<close>

definition windowValue :: "nat \<Rightarrow> real" where
  "windowValue j = 0.54 - 0.46 * cos (2 * pi * real j / real (windowSize - 1))"

definition windowedSegment :: "jsnum list \<Rightarrow> jsnum list" where
  "windowedSegment segment =
     map (\<lambda>j. jmul (numAt segment j) (Fin (windowValue j))) [0..<windowSize]"

text \<open>One pass of the inner loop over \<open>t\<close>: both accumulators are updated together.\<close>

definition dftStep :: "jsnum list \<Rightarrow> real \<Rightarrow> nat \<Rightarrow> jsnum \<times> jsnum \<Rightarrow> jsnum \<times> jsnum" where
  "dftStep ws freq t acc =
     (let angle = - 2 * pi * freq * real t
      in (jadd (fst acc) (jmul (numAt ws t) (Fin (cos angle))),
          jadd (snd acc) (jmul (numAt ws t) (Fin (sin angle)))))"

definition dftBin :: "jsnum list \<Rightarrow> nat \<Rightarrow> jsnum" where
  "dftBin ws f =
     (let freq = real f / real fftSize;
          acc = fold (dftStep ws freq) [0..<windowSize] (Fin 0, Fin 0);
          magnitude =
            jdiv (Math_sqrt (jadd (jmul (fst acc) (fst acc)) (jmul (snd acc) (snd acc))))
                 (Fin (real windowSize))
      in Math_min (Fin 1) (jmul magnitude (Fin 10)))"

definition frequencies :: "jsnum list \<Rightarrow> jsnum list" where
  "frequencies ws = map (dftBin ws) [0..<fftSize]"

text \<open>
  The outer loop \<open>for (i = 0; i < audioData.length - windowSize; i += hopSize)\<close>.  The
  bound may be negative, so the comparison is over the integers.  The periodic
  \<open>await\<close> inside the loop only yields control and does not touch the data.
\<close>

function genLoop :: "jsnum list \<Rightarrow> nat \<Rightarrow> jsnum list list \<Rightarrow> jsnum list list" where
  "genLoop audioData i spectrogramResult =
     (if int i < int (length audioData) - int windowSize
      then genLoop audioData (i + hopSize)
             (spectrogramResult @
                [frequencies (windowedSegment (slice audioData i (i + windowSize)))])
      else spectrogramResult)"
  by pat_completeness auto
termination
  by (relation "measure (\<lambda>(a, i, r). length a - i)") (auto simp: hopSize_def)

definition generateFullSpectrogram :: "jsnum list \<Rightarrow> real \<Rightarrow> jsnum list list" where
  "generateFullSpectrogram audioData sampleRate = genLoop audioData 0 []"

declare genLoop.simps [simp del]

text \<open>The row the loop body appends at frame offset \<open>i\<close>.\<close>

definition frameRow :: "jsnum list \<Rightarrow> nat \<Rightarrow> jsnum list" where
  "frameRow audioData i = frequencies (windowedSegment (slice audioData i (i + windowSize)))"

text \<open>The number of passes the loop still makes from offset \<open>i\<close> on \<open>n\<close> samples.\<close>

definition passes :: "nat \<Rightarrow> nat \<Rightarrow> nat" where
  "passes n i =
     (if i + windowSize < n then (n - windowSize - i + hopSize - 1) div hopSize else 0)"

text \<open>The two sums of the transform of a frame \<open>x\<close> of real samples, at bin \<open>f\<close>.\<close>

definition dftReal :: "real list \<Rightarrow> nat \<Rightarrow> real" where
  "dftReal x f = (\<Sum>t<windowSize. x ! t * cos (- 2 * pi * (real f / real fftSize) * real t))"

definition dftImag :: "real list \<Rightarrow> nat \<Rightarrow> real" where
  "dftImag x f = (\<Sum>t<windowSize. x ! t * sin (- 2 * pi * (real f / real fftSize) * real t))"

section \<open>The heat map: \<open>canvasData\<close> of the Spectrogram component\<close>

text \<open>
  \<open>spectrogramData[x][y]\<close>: \<open>None\<close> is \<open>undefined\<close>, read when the row is shorter
  than \<open>y\<close>.  The loops only use \<open>x\<close> below the number of rows.
\<close>

definition cellAt :: "jsnum list list \<Rightarrow> nat \<Rightarrow> nat \<Rightarrow> jsnum option" where
  "cellAt m x y = (if x < length m \<and> y < length (m ! x) then Some (m ! x ! y) else None)"

text \<open>\<open>spectrogramData[x][y] || 0\<close>, the way both pairs of loops read the matrix.\<close>

definition rawAt :: "jsnum list list \<Rightarrow> nat \<Rightarrow> nat \<Rightarrow> jsnum" where
  "rawAt m x y = orElse (cellAt m x y) (Fin 0)"

record valueStats =
  maxValue :: jsnum
  minValue :: jsnum
  allValues :: "jsnum list"

text \<open>The body of the first pair of loops, at position \<open>(x, y)\<close>.\<close>

definition statsStep :: "jsnum list list \<Rightarrow> nat \<Rightarrow> nat \<Rightarrow> valueStats \<Rightarrow> valueStats" where
  "statsStep m x y st =
     (let v = rawAt m x y;
          st1 = (if js_gt v (maxValue st) then st\<lparr>maxValue := v\<rparr> else st);
          st2 = (if js_lt v (minValue st1) \<and> js_gt v (Fin 0)
                 then st1\<lparr>minValue := v\<rparr> else st1)
      in if js_gt v (Fin 0) then st2\<lparr>allValues := allValues st2 @ [v]\<rparr> else st2)"

definition collectStats :: "jsnum list list \<Rightarrow> nat \<Rightarrow> nat \<Rightarrow> valueStats" where
  "collectStats m w h =
     fold (\<lambda>x. fold (\<lambda>y. statsStep m x y) [0..<h]) [0..<w]
       \<lparr>maxValue = Fin 0, minValue = PInf, allValues = []\<rparr>"

text \<open>
  \<open>allValues.sort((a, b) => a - b)\<close>.  The sort is stable and driven by the comparator;
  on the values \<open>allValues\<close> holds (each \<open>> 0\<close>, so never \<open>NaN\<close>) the comparator is a
  consistent order, and the result is the ascending arrangement that this stable
  insertion sort computes.
\<close>

definition compareFn :: "jsnum \<Rightarrow> jsnum \<Rightarrow> jsnum" where
  "compareFn a b = jsub a b"

fun insertSorted :: "jsnum \<Rightarrow> jsnum list \<Rightarrow> jsnum list" where
  "insertSorted a [] = [a]"
| "insertSorted a (b # bs) =
     (if js_gt (compareFn a b) (Fin 0) then b # insertSorted a bs else a # b # bs)"

definition sortNumbers :: "jsnum list \<Rightarrow> jsnum list" where
  "sortNumbers xs = foldr insertSorted xs []"

definition nthOpt :: "'a list \<Rightarrow> nat \<Rightarrow> 'a option" where
  "nthOpt xs i = (if i < length xs then Some (xs ! i) else None)"

text \<open>\<open>Math.floor(n * 0.95)\<close> and \<open>Math.floor(n * 0.05)\<close> for an array length \<open>n\<close>.\<close>

definition index95 :: "nat \<Rightarrow> nat" where
  "index95 n = nat \<lfloor>real n * 0.95\<rfloor>"

definition index5 :: "nat \<Rightarrow> nat" where
  "index5 n = nat \<lfloor>real n * 0.05\<rfloor>"

definition p95Of :: "valueStats \<Rightarrow> jsnum" where
  "p95Of st =
     (let sorted = sortNumbers (allValues st)
      in orElse (nthOpt sorted (index95 (length sorted))) (maxValue st))"

definition p5Of :: "valueStats \<Rightarrow> jsnum" where
  "p5Of st =
     (let sorted = sortNumbers (allValues st)
      in orElse (nthOpt sorted (index5 (length sorted))) (minValue st))"

definition normalizedMagnitude :: "jsnum \<Rightarrow> jsnum \<Rightarrow> jsnum \<Rightarrow> jsnum" where
  "normalizedMagnitude p5 p95 rawMagnitude =
     (if js_le rawMagnitude (Fin 0) then Fin 0
      else (let clampedValue = Math_max p5 (Math_min p95 rawMagnitude)
            in jdiv (jsub clampedValue p5) (jsub p95 p5)))"

definition scaledMagnitude :: "jsnum \<Rightarrow> jsnum \<Rightarrow> jsnum \<Rightarrow> jsnum" where
  "scaledMagnitude p5 p95 rawMagnitude = Math_pow_half (normalizedMagnitude p5 p95 rawMagnitude)"

text \<open>The colour bands: the values of \<open>r\<close>, \<open>g\<close>, \<open>b\<close> and \<open>alpha\<close>, in that order.\<close>

definition heatColor :: "jsnum \<Rightarrow> jsnum list" where
  "heatColor s =
     (if js_lt s (Fin 0.01) then
        [Fin 0, Fin 0, Math_floor (jmul s (Fin 2000)), Fin 255]
      else if js_lt s (Fin 0.25) then
        (let t = jdiv s (Fin 0.25)
         in [Fin 0, Fin 0, Math_floor (jadd (Fin 50) (jmul t (Fin 155))), Fin 255])
      else if js_lt s (Fin 0.5) then
        (let t = jdiv (jsub s (Fin 0.25)) (Fin 0.25)
         in [Fin 0, Math_floor (jmul t (Fin 180)),
             Math_floor (jsub (Fin 205) (jmul t (Fin 50))), Fin 255])
      else if js_lt s (Fin 0.75) then
        (let t = jdiv (jsub s (Fin 0.5)) (Fin 0.25)
         in [Math_floor (jmul t (Fin 255)), Math_floor (jadd (Fin 180) (jmul t (Fin 75))),
             Math_floor (jsub (Fin 155) (jmul t (Fin 155))), Fin 255])
      else
        (let t = jdiv (jsub s (Fin 0.75)) (Fin 0.25)
         in [Fin 255, Math_floor (jsub (Fin 255) (jmul t (Fin 255))), Fin 0, Fin 255]))"

text \<open>
  The body of the second pair of loops, at position \<open>(x, y)\<close>: the four stores into
  \<open>imageData.data\<close>.  A store past the end of a typed array is ignored, as
  \<open>list_update\<close> does.
\<close>

definition pixelStep ::
  "jsnum list list \<Rightarrow> nat \<Rightarrow> nat \<Rightarrow> jsnum \<Rightarrow> jsnum \<Rightarrow> nat \<Rightarrow> nat \<Rightarrow> 8 word list \<Rightarrow> 8 word list"
where
  "pixelStep m w h p5 p95 x y d =
     (let rawMagnitude = rawAt m x (h - 1 - y);
          c = heatColor (scaledMagnitude p5 p95 rawMagnitude);
          index = (y * w + x) * 4
      in d[index := toUint8Clamp (c ! 0),
           index + 1 := toUint8Clamp (c ! 1),
           index + 2 := toUint8Clamp (c ! 2),
           index + 3 := toUint8Clamp (c ! 3)])"

record imageData =
  imgWidth :: nat
  imgHeight :: nat
  imgData :: "8 word list"

text \<open>
  \<open>canvasData\<close>: \<open>None\<close> is the \<open>null\<close> returned for an empty matrix or an empty
  first row.  The canvas context is taken to exist, and the result is the pixel buffer
  that is handed to the canvas (its encoding as a data URL is the platform's).
\<close>

definition canvasData :: "jsnum list list \<Rightarrow> imageData option" where
  "canvasData spectrogramData =
     (if length spectrogramData = 0 \<or> length (spectrogramData ! 0) = 0 then None
      else
        (let w = length spectrogramData;
             h = length (spectrogramData ! 0);
             st = collectStats spectrogramData w h;
             p95 = p95Of st;
             p5 = p5Of st;
             d = fold (\<lambda>x. fold (\<lambda>y. pixelStep spectrogramData w h p5 p95 x y) [0..<h])
                   [0..<w] (replicate (w * h * 4) 0)
         in Some \<lparr>imgWidth = w, imgHeight = h, imgData = d\<rparr>))"

text \<open>
  The intensity the pixel loop computes for the matrix entry at row \<open>x\<close>, bin \<open>b\<close>:
  the entry of the normalized spectrogram.
\<close>

definition scaledAt :: "jsnum list list \<Rightarrow> nat \<Rightarrow> nat \<Rightarrow> jsnum" where
  "scaledAt m x b =
     (let st = collectStats m (length m) (length (m ! 0))
      in scaledMagnitude (p5Of st) (p95Of st) (rawAt m x b))"

text \<open>A number of the unit interval: finite, at least \<open>0\<close> and at most \<open>1\<close>.\<close>

fun inUnit :: "jsnum \<Rightarrow> bool" where
  "inUnit (Fin r) = (0 \<le> r \<and> r \<le> 1)"
| "inUnit _ = False"

text \<open>A matrix without infinite entries (its entries are finite numbers or \<open>NaN\<close>).\<close>

fun notInf :: "jsnum \<Rightarrow> bool" where
  "notInf PInf = False"
| "notInf NInf = False"
| "notInf _ = True"

definition noInfinity :: "jsnum list list \<Rightarrow> bool" where
  "noInfinity m = list_all (list_all notInf) m"

text \<open>
  The values the first pair of loops visits, in loop order (\<open>x\<close> outer, \<open>y\<close> inner),
  and the test \<open>value > 0\<close> that selects the entries of \<open>allValues\<close>.
\<close>

definition cellValues :: "jsnum list list \<Rightarrow> nat \<Rightarrow> nat \<Rightarrow> jsnum list" where
  "cellValues m w h = map (\<lambda>p. rawAt m (fst p) (snd p)) (List.product [0..<w] [0..<h])"

definition positive :: "jsnum \<Rightarrow> bool" where
  "positive v = js_gt v (Fin 0)"

text \<open>
  The same values as real numbers, for a matrix without infinite entries, and the two
  percentiles of a list of reals: the entries of the sorted positive values at the indices
  \<open>floor(n * 0.05)\<close> and \<open>floor(n * 0.95)\<close>.
\<close>

fun toReal :: "jsnum \<Rightarrow> real" where
  "toReal (Fin r) = r"
| "toReal _ = 0"

definition realCells :: "jsnum list list \<Rightarrow> nat \<Rightarrow> nat \<Rightarrow> real list" where
  "realCells m w h = map toReal (cellValues m w h)"

definition posValues :: "real list \<Rightarrow> real list" where
  "posValues xs = filter (\<lambda>r. 0 < r) xs"

definition pct5 :: "real list \<Rightarrow> real" where
  "pct5 xs = sort (posValues xs) ! index5 (length (posValues xs))"

definition pct95 :: "real list \<Rightarrow> real" where
  "pct95 xs = sort (posValues xs) ! index95 (length (posValues xs))"

text \<open>The number of positive values of a list that are at most \<open>t\<close>.\<close>

definition countUpTo :: "real list \<Rightarrow> real \<Rightarrow> nat" where
  "countUpTo xs t = length (filter (\<lambda>r. r \<le> t) (posValues xs))"

text \<open>The four bytes of pixel \<open>(x, y)\<close> of an image.\<close>

definition pixelAt :: "imageData \<Rightarrow> nat \<Rightarrow> nat \<Rightarrow> 8 word list" where
  "pixelAt img x y =
     (let index = (y * imgWidth img + x) * 4
      in [imgData img ! index, imgData img ! (index + 1),
          imgData img ! (index + 2), imgData img ! (index + 3)])"

section \<open>The live path: \<open>updateFrequencyData\<close>\<close>

record analyser =
  analyserFftSize :: nat
  smoothingTimeConstant :: real

text \<open>
  Modelled from the spec: the analyser node belongs to the platform, not to the
  repository; its \<open>frequencyBinCount\<close> is half its FFT size.
\<close>

definition frequencyBinCount :: "analyser \<Rightarrow> nat" where
  "frequencyBinCount a = analyserFftSize a div 2"

record captureState =
  analyserRef :: "analyser option"
  realtimeSpectrogramRef :: "jsnum list list"
  frequencyData :: "jsnum list"
  spectrogramData :: "jsnum list list"

text \<open>\<open>onStart\<close> of the recorder empties the live buffer and the displayed matrix.\<close>

definition onStart :: "captureState \<Rightarrow> captureState" where
  "onStart s = s\<lparr>realtimeSpectrogramRef := [], spectrogramData := []\<rparr>"

text \<open>\<open>startRecording\<close> creates the analyser with FFT size 2048.\<close>

definition startRecording :: "captureState \<Rightarrow> captureState" where
  "startRecording s =
     s\<lparr>analyserRef := Some \<lparr>analyserFftSize = 2048, smoothingTimeConstant = 0.8\<rparr>\<rparr>"

text \<open>
  One call of \<open>updateFrequencyData\<close>.  \<open>isRecording\<close> is the flag the callback closes
  over; \<open>getByteFrequencyData\<close> gives the byte the analyser writes at each index of the
  fresh \<open>Uint8Array(bufferLength)\<close>.
\<close>

definition updateFrequencyData :: "bool \<Rightarrow> (nat \<Rightarrow> 8 word) \<Rightarrow> captureState \<Rightarrow> captureState" where
  "updateFrequencyData isRecording getByteFrequencyData s =
     (case analyserRef s of
        None \<Rightarrow> s
      | Some a \<Rightarrow>
          if \<not> isRecording then s
          else
            (let bufferLength = frequencyBinCount a;
                 dataArray = map getByteFrequencyData [0..<bufferLength];
                 normalizedData = map (\<lambda>v. Fin (real (unat v) / 255)) dataArray;
                 spectrogramSlice = slice normalizedData 0 (bufferLength div 4);
                 pushed = realtimeSpectrogramRef s @ [spectrogramSlice];
                 kept = (if 200 < length pushed then tl pushed else pushed);
                 s1 = s\<lparr>frequencyData := normalizedData, realtimeSpectrogramRef := kept\<rparr>
             in if length (spectrogramData s1) = 0 then s1\<lparr>spectrogramData := kept\<rparr> else s1))"

text \<open>The animation loop: one call per frame, on the analyser's output of that frame.\<close>

definition runUpdates :: "bool \<Rightarrow> (nat \<Rightarrow> 8 word) list \<Rightarrow> captureState \<Rightarrow> captureState" where
  "runUpdates isRecording outputs s = fold (updateFrequencyData isRecording) outputs s"

text \<open>The state of a freshly mounted component: no analyser, nothing recorded.\<close>

definition initialState :: captureState where
  "initialState =
     \<lparr>analyserRef = None, realtimeSpectrogramRef = [], frequencyData = [], spectrogramData = []\<rparr>"

text \<open>The slice that one call pushes onto the live buffer.\<close>

definition liveSnapshot :: "analyser \<Rightarrow> (nat \<Rightarrow> 8 word) \<Rightarrow> jsnum list" where
  "liveSnapshot a getByteFrequencyData =
     slice (map (\<lambda>v. Fin (real (unat v) / 255))
              (map getByteFrequencyData [0..<frequencyBinCount a]))
       0 (frequencyBinCount a div 4)"

section \<open>Rows of the offline spectrogram\<close>

lemma passes_done: "\<not> i + windowSize < n \<Longrightarrow> passes n i = 0"
  by (simp add: passes_def)

lemma hopSize_pos: "0 < hopSize"
  by (simp add: hopSize_def)

lemma ceil_div_shift:
  fixes d H :: nat
  assumes "0 < H" and "0 < d"
  shows "(d + H - 1) div H = Suc ((d - 1) div H)"
proof -
  have "d + H - 1 = (d - 1) + H"
    using assms(2) by simp
  then have "(d + H - 1) div H = ((d - 1) + H) div H"
    by (rule arg_cong)
  also have "\<dots> = Suc ((d - 1) div H)"
    using assms(1) by (simp only: div_add_self2)
  finally show ?thesis .
qed

lemma ceil_div_step:
  fixes d H :: nat
  assumes "0 < H" and "H < d"
  shows "(d + H - 1) div H = Suc ((d - H + H - 1) div H)"
proof -
  have "0 < d" and "d - H + H - 1 = d - 1"
    using assms by simp_all
  then show ?thesis
    using ceil_div_shift [OF assms(1), of d] by (simp only:)
qed

lemma ceil_div_last:
  fixes d H :: nat
  assumes "0 < d" and "d \<le> H"
  shows "(d + H - 1) div H = 1"
proof -
  have "0 < H" and "d - 1 < H"
    using assms by simp_all
  then have "(d - 1) div H = 0" by simp
  then show ?thesis
    using ceil_div_shift [OF \<open>0 < H\<close> assms(1)] by (simp only:)
qed

lemma ceil_div_unaligned:
  fixes d H :: nat
  assumes H: "0 < H" and "\<not> H dvd d"
  shows "(d + H - 1) div H = d div H + 1"
proof -
  have r: "0 < d mod H" using assms by (simp add: dvd_eq_mod_eq_0)
  have eq: "H * (d div H) + d mod H = d" by (rule mult_div_mod_eq)
  have lt: "d mod H < H" using H by (rule mod_less_divisor)
  have "H * (d div H) \<le> d - 1"
    using r eq by linarith
  moreover have "d - 1 < H * Suc (d div H)"
    unfolding mult_Suc_right using r eq lt by linarith
  ultimately have "(d - 1) div H = d div H" by (rule div_nat_eqI)
  moreover have "0 < d" using r by (cases d) simp_all
  ultimately show ?thesis
    using ceil_div_shift [OF H, of d] by (simp only:)
qed

lemma ceil_div_less:
  fixes d H k :: nat
  assumes "0 < H" and "k < (d + H - 1) div H"
  shows "k * H < d"
proof -
  from assms(2) have "Suc k \<le> (d + H - 1) div H" by simp
  then have "Suc k * H \<le> d + H - 1"
    using assms(1) by (simp only: less_eq_div_iff_mult_less_eq)
  then have "k * H + H \<le> d + H - 1" by (simp only: mult_Suc add.commute)
  then show ?thesis using assms(1) by linarith
qed

lemma passes_step:
  assumes "i + windowSize < n"
  shows "passes n i = Suc (passes n (i + hopSize))"
proof -
  define d where "d = n - windowSize - i"
  have dpos: "0 < d" using assms by (simp add: d_def)
  show ?thesis
  proof (cases "i + hopSize + windowSize < n")
    case True
    then have "hopSize < d" by (simp add: d_def)
    then have "(d + hopSize - 1) div hopSize = Suc ((d - hopSize + hopSize - 1) div hopSize)"
      by (rule ceil_div_step [OF hopSize_pos])
    moreover have "n - windowSize - (i + hopSize) = d - hopSize"
      by (simp add: d_def)
    ultimately show ?thesis using True assms by (simp add: passes_def d_def)
  next
    case False
    then have "d \<le> hopSize" by (simp add: d_def)
    with dpos have "(d + hopSize - 1) div hopSize = 1"
      by (rule ceil_div_last)
    then show ?thesis using False assms by (simp add: passes_def d_def)
  qed
qed

lemma genLoop_rows:
  "genLoop a i r =
     r @ map (\<lambda>k. frameRow a (i + k * hopSize)) [0..<passes (length a) i]"
proof (induction a i r rule: genLoop.induct)
  case (1 a i r)
  show ?case
  proof (cases "int i < int (length a) - int windowSize")
    case False
    then have "\<not> i + windowSize < length a" by linarith
    then have "passes (length a) i = 0" by (rule passes_done)
    with False show ?thesis
      by (subst genLoop.simps) simp
  next
    case True
    then have lt: "i + windowSize < length a" by linarith
    have "genLoop a i r = genLoop a (i + hopSize) (r @ [frameRow a i])"
      using True by (subst genLoop.simps) (simp add: frameRow_def)
    also have "\<dots> = (r @ [frameRow a i]) @
        map (\<lambda>k. frameRow a (i + hopSize + k * hopSize)) [0..<passes (length a) (i + hopSize)]"
      using True "1.IH" by (simp add: frameRow_def)
    also have "\<dots> = r @ map (\<lambda>k. frameRow a (i + k * hopSize)) [0..<passes (length a) i]"
      by (simp add: passes_step [OF lt] map_upt_Suc add.assoc del: upt_Suc)
    finally show ?thesis .
  qed
qed

lemma generateFullSpectrogram_rows:
  "generateFullSpectrogram a sr =
     map (\<lambda>k. frameRow a (k * hopSize)) [0..<passes (length a) 0]"
  by (simp add: generateFullSpectrogram_def genLoop_rows)

lemma generateFullSpectrogram_length:
  "length (generateFullSpectrogram a sr) =
     (if windowSize < length a
      then (length a - windowSize + hopSize - 1) div hopSize else 0)"
  by (simp add: generateFullSpectrogram_rows passes_def)

lemma generateFullSpectrogram_short:
  "length a < windowSize \<Longrightarrow> generateFullSpectrogram a sr = []"
  by (simp add: generateFullSpectrogram_rows passes_def)

lemma generateFullSpectrogram_length_unaligned:
  assumes "windowSize \<le> length a" and "\<not> hopSize dvd (length a - windowSize)"
  shows "length (generateFullSpectrogram a sr) = (length a - windowSize) div hopSize + 1"
proof -
  from assms(2) have "length a - windowSize \<noteq> 0" by (rule contrapos_nn) simp
  then have "windowSize < length a" by simp
  then show ?thesis
    using ceil_div_unaligned [OF hopSize_pos assms(2)]
    by (simp add: generateFullSpectrogram_length)
qed

text \<open>
  C1.  The claim gives \<open>floor((L - W) / H) + 1\<close> rows for every length \<open>L \<ge> W\<close>.  The
  loop runs while \<open>i < L - W\<close>, so a waveform of exactly \<open>W = 1024\<close> samples, which holds
  one full window, yields no row at all, where the claim's count is \<open>1\<close>.  The lemmas
  above give the whole picture: no rows below \<open>W\<close>, the claimed count whenever \<open>H\<close> does
  not divide \<open>L - W\<close>, one row less when it does, and rows in increasing offset order.
\<close>

theorem generateFullSpectrogram_exact_window:
  "length (replicate 1024 (Fin 0)) = windowSize
   \<and> generateFullSpectrogram (replicate 1024 (Fin 0)) 44100 = []
   \<and> (length (replicate 1024 (Fin 0)) - windowSize) div hopSize + 1 = 1"
  by (simp add: generateFullSpectrogram_rows passes_def windowSize_def hopSize_def)

text \<open>
  C10.  The offline spectrogram does not depend on the sample rate: the same samples with
  any two sample rates give the same matrix.
\<close>

theorem generateFullSpectrogram_sampleRate_independent:
  "generateFullSpectrogram audioData sampleRate1 = generateFullSpectrogram audioData sampleRate2"
  by (simp add: generateFullSpectrogram_def)

section \<open>The transform of a frame\<close>

lemma numAt_map_Fin: "t < length x \<Longrightarrow> numAt (map Fin x) t = Fin (x ! t)"
  by (simp add: numAt_def)

lemma fold_dftStep_Fin:
  assumes "\<forall>t\<in>set ts. t < length x"
  shows "fold (dftStep (map Fin x) freq) ts (Fin a, Fin b) =
     (Fin (a + (\<Sum>t\<leftarrow>ts. x ! t * cos (- 2 * pi * freq * real t))),
      Fin (b + (\<Sum>t\<leftarrow>ts. x ! t * sin (- 2 * pi * freq * real t))))"
  using assms
proof (induction ts arbitrary: a b)
  case Nil
  then show ?case by simp
next
  case (Cons t ts)
  then have t: "t < length x" and rest: "\<forall>t\<in>set ts. t < length x" by simp_all
  have "dftStep (map Fin x) freq t (Fin a, Fin b) =
      (Fin (a + x ! t * cos (- 2 * pi * freq * real t)),
       Fin (b + x ! t * sin (- 2 * pi * freq * real t)))"
    using t by (simp add: dftStep_def numAt_map_Fin Let_def)
  then show ?case
    using Cons.IH [OF rest] by (simp add: add.assoc)
qed

lemma sum_list_upt: "(\<Sum>t\<leftarrow>[0..<n]. g t) = (\<Sum>t<n. g t)" for g :: "nat \<Rightarrow> real"
  by (simp add: interv_sum_list_conv_sum_set_nat atLeast0LessThan)

lemma dftBin_Fin:
  assumes "length x = windowSize"
  shows "dftBin (map Fin x) f =
     Fin (min 1 (10 * sqrt ((dftReal x f)\<^sup>2 + (dftImag x f)\<^sup>2) / real windowSize))"
proof -
  have "\<forall>t\<in>set [0..<windowSize]. t < length x" using assms by simp
  from fold_dftStep_Fin [OF this, of "real f / real fftSize" 0 0]
  have acc: "fold (dftStep (map Fin x) (real f / real fftSize)) [0..<windowSize] (Fin 0, Fin 0) =
      (Fin (dftReal x f), Fin (dftImag x f))"
    by (simp add: sum_list_upt dftReal_def dftImag_def)
  have nn: "\<not> dftReal x f * dftReal x f + dftImag x f * dftImag x f < 0"
    by (simp add: not_less)
  have w: "real windowSize \<noteq> 0" by (simp add: windowSize_def)
  show ?thesis
    using nn w by (simp add: dftBin_def acc Let_def power2_eq_square mult.commute)
qed


lemma windowedSegment_Fin:
  assumes "length seg = windowSize"
  shows "windowedSegment (map Fin seg) = map Fin (map (\<lambda>j. seg ! j * windowValue j) [0..<windowSize])"
  using assms by (simp add: windowedSegment_def numAt_def)

lemma slice_map: "slice (map g xs) a b = map g (slice xs a b)"
  by (simp add: slice_def take_map drop_map)

lemma length_slice_window:
  "i + windowSize \<le> length xs \<Longrightarrow> length (slice xs i (i + windowSize)) = windowSize"
  by (simp add: slice_def)

lemma frequencies_Fin:
  assumes "length x = windowSize"
  shows "frequencies (map Fin x) =
     map (\<lambda>f. Fin (min 1 (10 * sqrt ((dftReal x f)\<^sup>2 + (dftImag x f)\<^sup>2) / real windowSize)))
       [0..<fftSize]"
  using assms by (simp add: frequencies_def dftBin_Fin)

lemma frequencies_Fin_unit:
  assumes "length x = windowSize" and "v \<in> set (frequencies (map Fin x))"
  shows "\<exists>r. v = Fin r \<and> 0 \<le> r \<and> r \<le> 1"
proof -
  from assms obtain f where
    "v = Fin (min 1 (10 * sqrt ((dftReal x f)\<^sup>2 + (dftImag x f)\<^sup>2) / real windowSize))"
    by (auto simp: frequencies_Fin)
  then show ?thesis by simp
qed

lemma length_frequencies: "length (frequencies ws) = fftSize"
  by (simp add: frequencies_def)

lemma passes_offset:
  assumes "k < passes n 0"
  shows "k * hopSize + windowSize < n"
proof -
  from assms have lt: "windowSize < n" and k: "k < (n - windowSize + hopSize - 1) div hopSize"
    by (auto simp: passes_def split: if_splits)
  from ceil_div_less [OF hopSize_pos k] have "k * hopSize < n - windowSize" .
  then show ?thesis using lt by simp
qed

lemma frameRow_Fin:
  assumes "i + windowSize \<le> length s"
  shows "frameRow (map Fin s) i =
     frequencies (map Fin (map (\<lambda>j. slice s i (i + windowSize) ! j * windowValue j) [0..<windowSize]))"
  using assms by (simp add: frameRow_def slice_map windowedSegment_Fin length_slice_window)

lemma generateFullSpectrogram_row:
  assumes "row \<in> set (generateFullSpectrogram a sr)"
  shows "\<exists>k. k * hopSize + windowSize < length a \<and> row = frameRow a (k * hopSize)"
proof -
  from assms obtain k where k: "k < passes (length a) 0" and row: "row = frameRow a (k * hopSize)"
    by (auto simp: generateFullSpectrogram_rows)
  from passes_offset [OF k] row show ?thesis by blast
qed

lemma generateFullSpectrogram_Fin_rows:
  assumes "row \<in> set (generateFullSpectrogram (map Fin s) sr)"
  shows "length row = fftSize \<and> (\<forall>v\<in>set row. \<exists>r. v = Fin r \<and> 0 \<le> r \<and> r \<le> 1)"
proof -
  from generateFullSpectrogram_row [OF assms] obtain k where
    k: "k * hopSize + windowSize < length s" and row: "row = frameRow (map Fin s) (k * hopSize)"
    by auto
  from k have le: "k * hopSize + windowSize \<le> length s" by simp
  define x where
    "x = map (\<lambda>j. slice s (k * hopSize) (k * hopSize + windowSize) ! j * windowValue j)
           [0..<windowSize]"
  have len: "length x = windowSize" by (simp add: x_def)
  have "row = frequencies (map Fin x)"
    unfolding row x_def by (rule frameRow_Fin [OF le])
  then show ?thesis
    using frequencies_Fin_unit [OF len] length_frequencies by blast
qed

lemma jadd_NaN_right [simp]: "jadd a NaN = NaN"
  by (cases a) simp_all

lemma jmul_NaN_right [simp]: "jmul a NaN = NaN"
  by (cases a) simp_all

lemma fold_dftStep_NaN: "fold (dftStep ws freq) ts (NaN, NaN) = (NaN, NaN)"
  by (induction ts) (simp_all add: dftStep_def)

lemma fold_dftStep_NaN_sample:
  assumes "t0 \<in> set ts" and "numAt ws t0 = NaN"
  shows "fold (dftStep ws freq) ts acc = (NaN, NaN)"
  using assms(1)
proof (induction ts arbitrary: acc)
  case Nil
  then show ?case by simp
next
  case (Cons t ts)
  show ?case
  proof (cases "t = t0")
    case True
    then have "dftStep ws freq t acc = (NaN, NaN)"
      using assms(2) by (simp add: dftStep_def)
    then show ?thesis by (simp add: fold_dftStep_NaN)
  next
    case False
    with Cons.prems have "t0 \<in> set ts" by simp
    then show ?thesis using Cons.IH by simp
  qed
qed

lemma dftBin_NaN_sample:
  assumes "t0 < windowSize" and "numAt ws t0 = NaN"
  shows "dftBin ws f = NaN"
proof -
  have "t0 \<in> set [0..<windowSize]" using assms(1) by simp
  from fold_dftStep_NaN_sample [OF this assms(2)]
  show ?thesis by (simp add: dftBin_def)
qed

lemma frequencies_NaN_sample:
  assumes "t0 < windowSize" and "numAt ws t0 = NaN"
  shows "frequencies ws = replicate fftSize NaN"
proof -
  have "map (dftBin ws) [0..<fftSize] = map (\<lambda>_. NaN) [0..<fftSize]"
    by (rule map_cong) (simp_all add: dftBin_NaN_sample [OF assms])
  then show ?thesis
    by (simp add: frequencies_def map_replicate_const)
qed

lemma frameRow_NaN_sample:
  assumes "t0 < windowSize" and "numAt (slice a i (i + windowSize)) t0 = NaN"
  shows "frameRow a i = replicate fftSize NaN"
proof -
  have "numAt (windowedSegment (slice a i (i + windowSize))) t0 = NaN"
    using assms by (auto simp: windowedSegment_def numAt_def split: if_splits)
  from frequencies_NaN_sample [OF assms(1) this]
  show ?thesis by (simp add: frameRow_def)
qed

lemma windowedSegment_zero:
  "windowedSegment (replicate windowSize (Fin 0)) = replicate windowSize (Fin 0)"
  by (rule nth_equalityI) (simp_all add: windowedSegment_def numAt_def)

lemma passes_1280: "passes 1280 0 = 1"
  by (simp add: passes_def windowSize_def hopSize_def)

text \<open>
  C3.  For a windowed frame \<open>x\<close> of \<open>N = 1024\<close> (finite) samples, the output at every bin
  \<open>f < K = 128\<close> is \<open>min(1, 10 * sqrt(real\<^sup>2 + imag\<^sup>2) / N)\<close> with the two sums of the claim;
  and every row the builder produces from a waveform of finite samples has exactly \<open>K\<close>
  entries, each a number between \<open>0\<close> and \<open>1\<close>.
\<close>

theorem spectral_frame_transform:
  assumes "length x = windowSize"
  shows "frequencies (map Fin x) =
           map (\<lambda>f. Fin (min 1 (10 *
                  sqrt ((\<Sum>t<windowSize. x ! t * cos (- 2 * pi * (real f / real fftSize) * real t))\<^sup>2
                      + (\<Sum>t<windowSize. x ! t * sin (- 2 * pi * (real f / real fftSize) * real t))\<^sup>2)
                  / real windowSize)))
             [0..<fftSize]
         \<and> (\<forall>row\<in>set (generateFullSpectrogram (map Fin samples) sampleRate).
               length row = fftSize \<and> (\<forall>v\<in>set row. \<exists>r. v = Fin r \<and> 0 \<le> r \<and> r \<le> 1))"
  using frequencies_Fin [OF assms] generateFullSpectrogram_Fin_rows
  unfolding dftReal_def dftImag_def by blast

theorem spectral_frame_transform_witness:
  "length (replicate 1024 (0::real)) = windowSize
   \<and> frequencies (map Fin (replicate 1024 0)) = replicate 128 (Fin 0)
   \<and> generateFullSpectrogram (map Fin (replicate 1280 0)) 44100 = [replicate 128 (Fin 0)]"
proof -
  have h: "length (replicate 1024 (0::real)) = windowSize"
    by (simp add: windowSize_def)
  note t = spectral_frame_transform [OF h, of "replicate 1280 0" 44100]
  have "map (\<lambda>f. Fin (min 1 (10 *
            sqrt ((\<Sum>t<windowSize. replicate 1024 0 ! t * cos (- 2 * pi * (real f / real fftSize) * real t))\<^sup>2
                + (\<Sum>t<windowSize. replicate 1024 0 ! t * sin (- 2 * pi * (real f / real fftSize) * real t))\<^sup>2)
            / real windowSize))) [0..<fftSize]
        = replicate 128 (Fin 0)"
    by (simp add: windowSize_def fftSize_def map_replicate_const)
  with t have z: "frequencies (map Fin (replicate 1024 0)) = replicate 128 (Fin 0)"
    by (simp only:)
  have "windowedSegment (replicate 1024 (Fin 0)) = map Fin (replicate 1024 0)"
    using windowedSegment_zero by (simp add: windowSize_def)
  then have "frameRow (replicate 1280 (Fin 0)) 0 = replicate 128 (Fin 0)"
    using z by (simp add: frameRow_def slice_def windowSize_def)
  then have g: "generateFullSpectrogram (map Fin (replicate 1280 0)) 44100 = [replicate 128 (Fin 0)]"
    by (simp add: generateFullSpectrogram_rows passes_1280)
  from h z g show ?thesis by (simp only: simp_thms)
qed

section \<open>The live buffer\<close>

lemma length_liveSnapshot: "length (liveSnapshot a g) = frequencyBinCount a div 4"
  by (simp add: liveSnapshot_def slice_def)

lemma updateFrequencyData_buffer:
  assumes "analyserRef s = Some a"
  shows "realtimeSpectrogramRef (updateFrequencyData True g s) =
     (if 200 < Suc (length (realtimeSpectrogramRef s))
      then tl (realtimeSpectrogramRef s @ [liveSnapshot a g])
      else realtimeSpectrogramRef s @ [liveSnapshot a g])"
  using assms by (simp add: updateFrequencyData_def liveSnapshot_def Let_def)

lemma updateFrequencyData_frequencyData:
  assumes "analyserRef s = Some a"
  shows "length (frequencyData (updateFrequencyData True g s)) = frequencyBinCount a"
  using assms by (simp add: updateFrequencyData_def Let_def)

lemma updateFrequencyData_analyser:
  "analyserRef (updateFrequencyData r g s) = analyserRef s"
  by (simp add: updateFrequencyData_def Let_def split: option.splits)

lemma runUpdates_analyser: "analyserRef (runUpdates r gs s) = analyserRef s"
  unfolding runUpdates_def
  by (induction gs arbitrary: s) (simp_all add: updateFrequencyData_analyser)

lemma runUpdates_snoc:
  "runUpdates r (gs @ [g]) s = updateFrequencyData r g (runUpdates r gs s)"
  by (simp add: runUpdates_def)

lemma runUpdates_buffer:
  assumes "analyserRef s = Some a" and "realtimeSpectrogramRef s = []"
  shows "realtimeSpectrogramRef (runUpdates True gs s) =
     drop (length gs - 200) (map (liveSnapshot a) gs)"
proof (induction gs rule: rev_induct)
  case Nil
  then show ?case using assms(2) by (simp add: runUpdates_def)
next
  case (snoc g gs)
  let ?M = "map (liveSnapshot a) gs"
  let ?x = "liveSnapshot a g"
  have an: "analyserRef (runUpdates True gs s) = Some a"
    using assms(1) by (simp add: runUpdates_analyser)
  have buf: "realtimeSpectrogramRef (runUpdates True (gs @ [g]) s) =
      (if 200 < Suc (length (drop (length gs - 200) ?M))
       then tl (drop (length gs - 200) ?M @ [?x])
       else drop (length gs - 200) ?M @ [?x])"
    unfolding runUpdates_snoc updateFrequencyData_buffer [OF an] snoc.IH ..
  show ?case
  proof (cases "200 \<le> length gs")
    case True
    then have ne: "drop (length gs - 200) ?M \<noteq> []" by simp
    have "tl (drop (length gs - 200) ?M @ [?x]) = drop (Suc (length gs - 200)) ?M @ [?x]"
      using ne by (simp add: tl_append2 drop_Suc tl_drop)
    moreover have "Suc (length gs) - 200 = Suc (length gs - 200)"
      using True by simp
    ultimately show ?thesis
      using True by (simp add: buf)
  next
    case False
    then show ?thesis by (simp add: buf)
  qed
qed


lemma startRecording_analyser:
  "analyserRef (startRecording s) = Some \<lparr>analyserFftSize = 2048, smoothingTimeConstant = 0.8\<rparr>"
  by (simp add: startRecording_def)

lemma startRecording_buffer:
  "realtimeSpectrogramRef (startRecording (onStart s)) = []"
  by (simp add: startRecording_def onStart_def)

lemma last_kept:
  "last (if 200 < Suc (length b) then tl (b @ [x]) else b @ [x]) = x"
proof (cases b)
  case Nil
  then show ?thesis by simp
next
  case (Cons y ys)
  then show ?thesis by simp
qed

lemma kept_nonempty:
  "(if 200 < Suc (length b) then tl (b @ [x]) else b @ [x]) \<noteq> []"
  by (cases b) auto

text \<open>
  C6.  The claim gives every snapshot appended to the live buffer FFT-size/2 bins (1024 at
  FFT size 2048).  The normalised spectrum stored in \<open>frequencyData\<close> has that many
  entries, but what is pushed onto the buffer is its first quarter: with the analyser that
  \<open>startRecording\<close> creates, the appended snapshot has 256 entries.
\<close>

theorem live_snapshot_bins_counterexample:
  "length (last (realtimeSpectrogramRef
      (updateFrequencyData True (\<lambda>i. 0) (startRecording (onStart initialState))))) = 256
   \<and> frequencyBinCount \<lparr>analyserFftSize = 2048, smoothingTimeConstant = 0.8\<rparr> = 1024"
proof -
  have "last (realtimeSpectrogramRef
      (updateFrequencyData True (\<lambda>i. 0) (startRecording (onStart initialState))))
      = liveSnapshot \<lparr>analyserFftSize = 2048, smoothingTimeConstant = 0.8\<rparr> (\<lambda>i. 0)"
    unfolding updateFrequencyData_buffer [OF startRecording_analyser] by (rule last_kept)
  then show ?thesis
    by (simp add: length_liveSnapshot frequencyBinCount_def)
qed

lemma updateFrequencyData_snapshot:
  assumes "analyserRef s = Some a"
  shows "liveSnapshot a g =
     take (frequencyBinCount a div 4) (frequencyData (updateFrequencyData True g s))"
  using assms by (simp add: updateFrequencyData_def liveSnapshot_def slice_def Let_def)

text \<open>
  C6, as the code has it.  Each snapshot appended to the live buffer is the first
  \<open>floor(frequencyBinCount / 4)\<close> bins of the normalized spectrum, that is FFT-size/2/4
  bins (256 at FFT size 2048); the spectrum with FFT-size/2 bins is the one stored in
  \<open>frequencyData\<close>.
\<close>

theorem live_snapshot_bins:
  assumes "analyserRef s = Some a"
  shows "realtimeSpectrogramRef (updateFrequencyData True g s) \<noteq> []
    \<and> last (realtimeSpectrogramRef (updateFrequencyData True g s))
        = take (analyserFftSize a div 2 div 4) (frequencyData (updateFrequencyData True g s))
    \<and> length (last (realtimeSpectrogramRef (updateFrequencyData True g s)))
        = analyserFftSize a div 2 div 4
    \<and> length (frequencyData (updateFrequencyData True g s)) = analyserFftSize a div 2"
proof -
  note b = updateFrequencyData_buffer [OF assms, of g]
  have ne: "realtimeSpectrogramRef (updateFrequencyData True g s) \<noteq> []"
    unfolding b by (rule kept_nonempty)
  have l: "last (realtimeSpectrogramRef (updateFrequencyData True g s)) = liveSnapshot a g"
    unfolding b by (rule last_kept)
  have t: "last (realtimeSpectrogramRef (updateFrequencyData True g s))
      = take (analyserFftSize a div 2 div 4) (frequencyData (updateFrequencyData True g s))"
    unfolding l using updateFrequencyData_snapshot [OF assms, of g]
    by (simp only: frequencyBinCount_def)
  have n: "length (liveSnapshot a g) = analyserFftSize a div 2 div 4"
    by (simp add: length_liveSnapshot frequencyBinCount_def)
  have f: "length (frequencyData (updateFrequencyData True g s)) = analyserFftSize a div 2"
    using updateFrequencyData_frequencyData [OF assms, of g] by (simp add: frequencyBinCount_def)
  from ne t n f show ?thesis by (simp only: l simp_thms)
qed

theorem live_snapshot_bins_witness:
  "analyserRef (startRecording (onStart initialState))
      = Some \<lparr>analyserFftSize = 2048, smoothingTimeConstant = 0.8\<rparr>
   \<and> length (last (realtimeSpectrogramRef
         (updateFrequencyData True (\<lambda>i. 255) (startRecording (onStart initialState))))) = 256
   \<and> length (frequencyData
         (updateFrequencyData True (\<lambda>i. 255) (startRecording (onStart initialState)))) = 1024"
proof -
  have h: "analyserRef (startRecording (onStart initialState))
      = Some \<lparr>analyserFftSize = 2048, smoothingTimeConstant = 0.8\<rparr>"
    by (rule startRecording_analyser)
  from live_snapshot_bins [OF h, of "\<lambda>i. 255"] h show ?thesis by simp
qed

text \<open>
  C9.  From an empty live buffer, after any sequence of \<open>n\<close> pushes the buffer holds
  exactly the \<open>min n 200\<close> most recent snapshots, in arrival order.
\<close>

theorem rolling_buffer_fifo:
  assumes "analyserRef s = Some a" and "realtimeSpectrogramRef s = []"
  shows "realtimeSpectrogramRef (runUpdates True outputs s)
           = drop (length outputs - 200) (map (liveSnapshot a) outputs)
    \<and> length (realtimeSpectrogramRef (runUpdates True outputs s)) = min (length outputs) 200"
  by (simp add: runUpdates_buffer [OF assms])

theorem rolling_buffer_fifo_witness:
  "analyserRef (startRecording (onStart initialState))
      = Some \<lparr>analyserFftSize = 2048, smoothingTimeConstant = 0.8\<rparr>
   \<and> realtimeSpectrogramRef (startRecording (onStart initialState)) = []
   \<and> realtimeSpectrogramRef
        (runUpdates True (map (\<lambda>k i. word_of_nat k) [0..<250]) (startRecording (onStart initialState)))
       = map (\<lambda>k. liveSnapshot \<lparr>analyserFftSize = 2048, smoothingTimeConstant = 0.8\<rparr>
                     (\<lambda>i. word_of_nat k)) [50..<250]
   \<and> length (realtimeSpectrogramRef
        (runUpdates True (map (\<lambda>k i. word_of_nat k) [0..<250]) (startRecording (onStart initialState))))
       = 200"
proof -
  have h1: "analyserRef (startRecording (onStart initialState))
      = Some \<lparr>analyserFftSize = 2048, smoothingTimeConstant = 0.8\<rparr>"
    by (rule startRecording_analyser)
  have h2: "realtimeSpectrogramRef (startRecording (onStart initialState)) = []"
    by (rule startRecording_buffer)
  have d: "drop 50 [0..<250::nat] = [50..<250]"
    by (simp add: drop_upt)
  from rolling_buffer_fifo [OF h1 h2, of "map (\<lambda>k i. word_of_nat k) [0..<250]"] h1 h2
  show ?thesis
    by (simp add: drop_map d o_def del: upt_Suc)
qed

section \<open>The values the normalizer collects\<close>

lemma fold_product:
  "fold (\<lambda>x. fold (f x) ys) xs = fold (\<lambda>p. f (fst p) (snd p)) (List.product xs ys)"
proof (induction xs)
  case Nil
  then show ?case by simp
next
  case (Cons x xs)
  have "fold (\<lambda>p. f (fst p) (snd p)) (map (Pair x) ys) = fold (f x) ys"
    by (simp add: fold_map o_def)
  with Cons show ?case by simp
qed

lemma allValues_statsStep:
  "allValues (statsStep m x y st) =
     allValues st @ (if positive (rawAt m x y) then [rawAt m x y] else [])"
  by (simp add: statsStep_def Let_def positive_def)

lemma allValues_fold:
  "allValues (fold (\<lambda>p. statsStep m (fst p) (snd p)) ps st) =
     allValues st @ filter positive (map (\<lambda>p. rawAt m (fst p) (snd p)) ps)"
  by (induction ps arbitrary: st) (simp_all add: allValues_statsStep)

lemma allValues_collectStats:
  "allValues (collectStats m w h) = filter positive (cellValues m w h)"
  by (simp add: collectStats_def fold_product allValues_fold cellValues_def)

lemma rawAt_not_NaN: "rawAt m x y \<noteq> NaN"
  by (auto simp: rawAt_def cellAt_def split: if_splits elim: truthy.elims)

lemma insertSorted_Fin: "insertSorted (Fin a) (map Fin rs) = map Fin (insort a rs)"
  by (induction rs) (auto simp: compareFn_def jsub_def js_gt_def)

lemma sortNumbers_Fin: "sortNumbers (map Fin rs) = map Fin (sort rs)"
  unfolding sortNumbers_def sort_key_def
  by (induction rs) (simp_all add: insertSorted_Fin)

lemma index95_eq: "index95 n = (n * 19) div 20"
proof -
  have "real n * 0.95 = real (n * 19) / real 20" by simp
  then have "\<lfloor>real n * 0.95\<rfloor> = int ((n * 19) div 20)"
    by (simp only: floor_divide_of_nat_eq)
  then show ?thesis by (simp add: index95_def)
qed

lemma index5_eq: "index5 n = n div 20"
proof -
  have "real n * 0.05 = real n / real 20" by simp
  then have "\<lfloor>real n * 0.05\<rfloor> = int (n div 20)"
    by (simp only: floor_divide_of_nat_eq)
  then show ?thesis by (simp add: index5_def)
qed

lemma index95_less: "0 < n \<Longrightarrow> index95 n < n"
  unfolding index95_eq by (simp add: div_less_iff_less_mult)

lemma index5_le_index95: "index5 n \<le> index95 n"
  unfolding index95_eq index5_eq by (rule div_le_mono) simp



lemma notInf_cases: "notInf v \<Longrightarrow> (\<exists>r. v = Fin r) \<or> v = NaN"
  by (cases v) simp_all

lemma orElse_Fin: "notInf v \<Longrightarrow> \<exists>r. orElse (Some v) (Fin 0) = Fin r"
  by (cases v) simp_all

lemma rawAt_Fin:
  assumes "noInfinity m"
  shows "rawAt m x y = Fin (toReal (rawAt m x y))"
proof (cases "x < length m \<and> y < length (m ! x)")
  case False
  then have "cellAt m x y = None" by (auto simp: cellAt_def)
  then show ?thesis by (simp add: rawAt_def)
next
  case True
  then have "m ! x \<in> set m" and "m ! x ! y \<in> set (m ! x)" by simp_all
  with assms have "notInf (m ! x ! y)"
    by (auto simp: noInfinity_def list_all_iff)
  from orElse_Fin [OF this] obtain r where "orElse (Some (m ! x ! y)) (Fin 0) = Fin r" ..
  moreover from True have "cellAt m x y = Some (m ! x ! y)" by (simp add: cellAt_def)
  ultimately show ?thesis by (simp add: rawAt_def)
qed

lemma cellValues_Fin:
  assumes "noInfinity m"
  shows "cellValues m w h = map Fin (realCells m w h)"
  unfolding realCells_def cellValues_def
  by (simp add: o_def rawAt_Fin [OF assms, symmetric])

lemma positive_Fin [simp]: "positive (Fin r) = (0 < r)"
  by (simp add: positive_def js_gt_def)

lemma filter_positive_Fin: "filter positive (map Fin rs) = map Fin (filter (\<lambda>r. 0 < r) rs)"
  by (induction rs) simp_all

lemma allValues_real:
  assumes "noInfinity m"
  shows "allValues (collectStats m w h) = map Fin (posValues (realCells m w h))"
  by (simp add: allValues_collectStats cellValues_Fin [OF assms] filter_positive_Fin posValues_def)

lemma posValues_pos: "r \<in> set (posValues xs) \<Longrightarrow> 0 < r"
  by (simp add: posValues_def)

lemma p95Of_real:
  assumes "allValues st = map Fin (posValues xs)" and "posValues xs \<noteq> []"
  shows "p95Of st = Fin (pct95 xs)"
proof -
  let ?n = "length (posValues xs)"
  have i: "index95 ?n < ?n" using assms(2) by (simp add: index95_less)
  then have "sort (posValues xs) ! index95 ?n \<in> set (sort (posValues xs))"
    by (simp del: set_sort)
  then have "0 < sort (posValues xs) ! index95 ?n"
    by (simp add: posValues_pos)
  then show ?thesis
    using i by (simp add: p95Of_def assms(1) sortNumbers_Fin nthOpt_def pct95_def Let_def)
qed

lemma p5Of_real:
  assumes "allValues st = map Fin (posValues xs)" and "posValues xs \<noteq> []"
  shows "p5Of st = Fin (pct5 xs)"
proof -
  let ?n = "length (posValues xs)"
  have "index95 ?n < ?n" using assms(2) by (simp add: index95_less)
  then have i: "index5 ?n < ?n" using index5_le_index95 [of ?n] by simp
  then have "sort (posValues xs) ! index5 ?n \<in> set (sort (posValues xs))"
    by (simp del: set_sort)
  then have "0 < sort (posValues xs) ! index5 ?n"
    by (simp add: posValues_pos)
  then show ?thesis
    using i by (simp add: p5Of_def assms(1) sortNumbers_Fin nthOpt_def pct5_def Let_def)
qed

lemma pct5_le_pct95:
  assumes "posValues xs \<noteq> []"
  shows "pct5 xs \<le> pct95 xs"
proof -
  let ?n = "length (posValues xs)"
  have "index95 ?n < ?n" using assms by (simp add: index95_less)
  then show ?thesis
    unfolding pct5_def pct95_def
    by (intro sorted_nth_mono) (simp_all add: index5_le_index95)
qed

lemma normalizedMagnitude_nonpos:
  "v \<le> 0 \<Longrightarrow> normalizedMagnitude p5 p95 (Fin v) = Fin 0"
  by (simp add: normalizedMagnitude_def)

lemma normalizedMagnitude_degenerate:
  "0 < v \<Longrightarrow> normalizedMagnitude (Fin a) (Fin a) (Fin v) = NaN"
  by (simp add: normalizedMagnitude_def jsub_def Let_def)

lemma normalizedMagnitude_regular:
  "0 < v \<Longrightarrow> a \<noteq> b \<Longrightarrow>
   normalizedMagnitude (Fin a) (Fin b) (Fin v) = Fin ((max a (min b v) - a) / (b - a))"
  by (simp add: normalizedMagnitude_def jsub_def Let_def)

section \<open>The normalized magnitude\<close>

lemma rawAt_nonpositive: "\<not> positive (rawAt m x b) \<Longrightarrow> js_le (rawAt m x b) (Fin 0)"
  using rawAt_not_NaN [of m x b]
  by (cases "rawAt m x b") (simp_all add: positive_def js_gt_def not_less)

lemma scaledAt_nonpositive:
  assumes "\<not> positive (rawAt m x b)"
  shows "scaledAt m x b = Fin 0"
  using rawAt_nonpositive [OF assms]
  by (simp add: scaledAt_def scaledMagnitude_def normalizedMagnitude_def Let_def)

lemma scaledAt_NaN_entry:
  assumes "cellAt m x b = Some NaN"
  shows "scaledAt m x b = Fin 0"
proof -
  have "rawAt m x b = Fin 0" using assms by (simp add: rawAt_def)
  then have "\<not> positive (rawAt m x b)" by simp
  then show ?thesis by (rule scaledAt_nonpositive)
qed

lemma realCells_member:
  assumes "x < w" and "b < h"
  shows "toReal (rawAt m x b) \<in> set (realCells m w h)"
proof -
  have "(x, b) \<in> set (List.product [0..<w] [0..<h])" using assms by simp
  then have "(\<lambda>p. rawAt m (fst p) (snd p)) (x, b) \<in> set (cellValues m w h)"
    unfolding cellValues_def set_map by (rule imageI)
  then show ?thesis by (simp add: realCells_def)
qed

lemma scaledAt_real:
  assumes "noInfinity m" and "x < length m" and "b < length (m ! 0)"
  shows "scaledAt m x b =
     (let xs = realCells m (length m) (length (m ! 0)); v = toReal (rawAt m x b)
      in if v \<le> 0 then Fin 0
         else if pct5 xs = pct95 xs then NaN
         else Fin (sqrt ((max (pct5 xs) (min (pct95 xs) v) - pct5 xs) / (pct95 xs - pct5 xs))))"
proof -
  define xs where "xs = realCells m (length m) (length (m ! 0))"
  define v where "v = toReal (rawAt m x b)"
  define st where "st = collectStats m (length m) (length (m ! 0))"
  have raw: "rawAt m x b = Fin v"
    unfolding v_def by (rule rawAt_Fin [OF assms(1)])
  have sc: "scaledAt m x b = Math_pow_half (normalizedMagnitude (p5Of st) (p95Of st) (Fin v))"
    by (simp add: scaledAt_def scaledMagnitude_def st_def raw Let_def)
  show ?thesis
  proof (cases "v \<le> 0")
    case True
    then show ?thesis
      by (simp add: sc normalizedMagnitude_nonpos Let_def v_def [symmetric])
  next
    case False
    then have vpos: "0 < v" by simp
    have "v \<in> set xs"
      unfolding v_def xs_def using assms(2,3) by (rule realCells_member)
    with vpos have ne: "posValues xs \<noteq> []"
      by (force simp: posValues_def filter_empty_conv)
    have av: "allValues st = map Fin (posValues xs)"
      unfolding st_def xs_def by (rule allValues_real [OF assms(1)])
    have p5: "p5Of st = Fin (pct5 xs)" and p95: "p95Of st = Fin (pct95 xs)"
      using av ne by (rule p5Of_real, rule p95Of_real)
    show ?thesis
    proof (cases "pct5 xs = pct95 xs")
      case True
      then show ?thesis
        using vpos
        by (simp add: sc p5 p95 normalizedMagnitude_degenerate Let_def
            v_def [symmetric] xs_def [symmetric])
    next
      case False
      with pct5_le_pct95 [OF ne] have lt: "pct5 xs < pct95 xs" by simp
      have "0 \<le> (max (pct5 xs) (min (pct95 xs) v) - pct5 xs) / (pct95 xs - pct5 xs)"
        using lt by (intro divide_nonneg_pos) simp_all
      then show ?thesis
        using vpos False
        by (simp add: sc p5 p95 normalizedMagnitude_regular Let_def not_less
            v_def [symmetric] xs_def [symmetric])
    qed
  qed
qed

lemma scaledAt_unit:
  assumes "noInfinity m" and "x < length m" and "b < length (m ! 0)"
    and "pct5 (realCells m (length m) (length (m ! 0)))
          \<noteq> pct95 (realCells m (length m) (length (m ! 0)))"
  shows "inUnit (scaledAt m x b)"
proof -
  define xs where "xs = realCells m (length m) (length (m ! 0))"
  define v where "v = toReal (rawAt m x b)"
  note eq = scaledAt_real [OF assms(1-3), unfolded Let_def, folded xs_def v_def]
  show ?thesis
  proof (cases "v \<le> 0")
    case True
    then show ?thesis by (simp add: eq)
  next
    case False
    have "v \<in> set xs"
      unfolding v_def xs_def using assms(2,3) by (rule realCells_member)
    with False have ne: "posValues xs \<noteq> []"
      by (force simp: posValues_def filter_empty_conv not_le)
    from pct5_le_pct95 [OF ne] assms(4) have lt: "pct5 xs < pct95 xs"
      by (simp add: xs_def)
    have "max (pct5 xs) (min (pct95 xs) v) - pct5 xs \<le> pct95 xs - pct5 xs"
      using lt by simp
    then have "(max (pct5 xs) (min (pct95 xs) v) - pct5 xs) / (pct95 xs - pct5 xs) \<le> 1"
      using lt by (simp add: divide_le_eq)
    moreover have "0 \<le> (max (pct5 xs) (min (pct95 xs) v) - pct5 xs) / (pct95 xs - pct5 xs)"
      using lt by (intro divide_nonneg_pos) simp_all
    ultimately show ?thesis
      using False lt by (simp add: eq)
  qed
qed

lemma list_all_isFin: "list_all isFin a \<Longrightarrow> a = map Fin (map toReal a)"
  by (induction a) (auto elim: isFin.elims)

lemma generateFullSpectrogram_finite:
  assumes "list_all isFin audioData"
  shows "list_all (list_all inUnit) (generateFullSpectrogram audioData sampleRate)"
proof -
  from list_all_isFin [OF assms] obtain s where a: "audioData = map Fin s" ..
  show ?thesis
    unfolding a list_all_iff
    using generateFullSpectrogram_Fin_rows [of _ s sampleRate] by fastforce
qed

section \<open>The degenerate range and non-finite values\<close>

lemma collectStats_constant:
  "collectStats [[Fin (1/2), Fin (1/2)], [Fin (1/2), Fin (1/2)]] 2 2 =
     \<lparr>maxValue = Fin (1/2), minValue = Fin (1/2),
      allValues = [Fin (1/2), Fin (1/2), Fin (1/2), Fin (1/2)]\<rparr>"
  by (simp add: collectStats_def statsStep_def rawAt_def cellAt_def js_gt_def Let_def
      eval_nat_numeral)

lemma sortNumbers_constant:
  "sortNumbers [Fin (1/2), Fin (1/2), Fin (1/2), Fin (1/2)] =
     [Fin (1/2), Fin (1/2), Fin (1/2), Fin (1/2)]"
  by (simp add: sortNumbers_def compareFn_def jsub_def js_gt_def)

text \<open>
  C2.  The claim has the division guarded when \<open>p95 = p5\<close>, every such value
  normalizing to \<open>0\<close>.  The code divides by \<open>p95 - p5\<close> as it is: on a constant
  positive matrix both percentiles are that constant, the quotient is \<open>0 / 0\<close>, and the
  normalized magnitude of every positive entry is \<open>NaN\<close>.
\<close>

theorem degenerate_range_division:
  "p5Of (collectStats [[Fin (1/2), Fin (1/2)], [Fin (1/2), Fin (1/2)]] 2 2) = Fin (1/2)
   \<and> p95Of (collectStats [[Fin (1/2), Fin (1/2)], [Fin (1/2), Fin (1/2)]] 2 2) = Fin (1/2)
   \<and> normalizedMagnitude (Fin (1/2)) (Fin (1/2)) (Fin (1/2)) = NaN
   \<and> scaledAt [[Fin (1/2), Fin (1/2)], [Fin (1/2), Fin (1/2)]] 1 0 = NaN"
proof -
  let ?m = "[[Fin (1/2), Fin (1/2)], [Fin (1/2), Fin (1/2)]]"
  have p5: "p5Of (collectStats ?m 2 2) = Fin (1/2)"
    by (simp add: collectStats_constant p5Of_def sortNumbers_constant nthOpt_def index5_eq)
  have p95: "p95Of (collectStats ?m 2 2) = Fin (1/2)"
    by (simp add: collectStats_constant p95Of_def sortNumbers_constant nthOpt_def index95_eq)
  have n: "normalizedMagnitude (Fin (1/2)) (Fin (1/2)) (Fin (1/2)) = NaN"
    by (simp add: normalizedMagnitude_degenerate)
  have wh: "length ?m = 2" "length (?m ! 0) = 2" by simp_all
  have "rawAt ?m 1 0 = Fin (1/2)"
    by (simp add: rawAt_def cellAt_def)
  then have s: "scaledAt ?m 1 0 = NaN"
    unfolding scaledAt_def wh by (simp add: p5 p95 scaledMagnitude_def n Let_def)
  from p5 p95 n s show ?thesis by (simp only: simp_thms)
qed


lemma collectStats_zero_one:
  "collectStats [[Fin 0, Fin 1]] (Suc 0) 2 = \<lparr>maxValue = Fin 1, minValue = Fin 1, allValues = [Fin 1]\<rparr>"
  by (simp add: collectStats_def statsStep_def rawAt_def cellAt_def js_gt_def Let_def
      eval_nat_numeral)

lemma percentiles_zero_one:
  "p5Of (collectStats [[Fin 0, Fin 1]] (Suc 0) 2) = Fin 1"
  "p95Of (collectStats [[Fin 0, Fin 1]] (Suc 0) 2) = Fin 1"
  by (simp_all add: collectStats_zero_one p5Of_def p95Of_def sortNumbers_def nthOpt_def
      index5_eq index95_eq)

text \<open>
  C4.  The claim puts every normalized value in \<open>[0, 1]\<close>.  On the one-row matrix
  \<open>[[0, 1]]\<close> the only positive value is \<open>1\<close>, both percentiles are \<open>1\<close>, and the
  normalized value of that entry is \<open>NaN\<close>, which is drawn as the pixel
  \<open>(255, 0, 0, 255)\<close>.  The lemmas above cover the rest of the claim: an entry that is
  not positive is normalized to \<open>0\<close> (\<open>scaledAt_nonpositive\<close>), and with different
  percentiles every normalized value lies in \<open>[0, 1]\<close> (\<open>scaledAt_unit\<close>).
\<close>

theorem normalized_value_not_in_unit:
  "scaledAt [[Fin 0, Fin 1]] 0 1 = NaN
   \<and> \<not> inUnit (scaledAt [[Fin 0, Fin 1]] 0 1)
   \<and> canvasData [[Fin 0, Fin 1]] =
       Some \<lparr>imgWidth = 1, imgHeight = 2, imgData = [255, 0, 0, 255, 0, 0, 0, 255]\<rparr>"
proof -
  let ?m = "[[Fin 0, Fin 1]]"
  have wh: "length ?m = Suc 0" "length (?m ! 0) = 2" by simp_all
  have raw: "rawAt ?m 0 (Suc 0) = Fin 1" "rawAt ?m 0 0 = Fin 0"
    by (simp_all add: rawAt_def cellAt_def)
  have s: "scaledAt ?m 0 1 = NaN"
    unfolding scaledAt_def wh
    by (simp add: percentiles_zero_one raw scaledMagnitude_def normalizedMagnitude_degenerate)
  have hi: "heatColor (scaledMagnitude (Fin 1) (Fin 1) (Fin 1)) = [Fin 255, NaN, Fin 0, Fin 255]"
    by (simp add: scaledMagnitude_def normalizedMagnitude_degenerate heatColor_def jsub_def)
  have lo: "heatColor (scaledMagnitude (Fin 1) (Fin 1) (Fin 0)) = [Fin 0, Fin 0, Fin 0, Fin 255]"
    by (simp add: scaledMagnitude_def normalizedMagnitude_nonpos heatColor_def)
  have c: "canvasData ?m =
      Some \<lparr>imgWidth = 1, imgHeight = 2, imgData = [255, 0, 0, 255, 0, 0, 0, 255]\<rparr>"
    by (simp only: canvasData_def Let_def wh percentiles_zero_one)
       (simp add: pixelStep_def raw hi lo Let_def eval_nat_numeral)
  from s c show ?thesis by simp
qed

text \<open>
  C5.  The claim has a \<open>NaN\<close> or infinite magnitude replaced by \<open>0\<close> inside the
  magnitude computation.  The computation has no such step: one \<open>NaN\<close> sample in the
  window makes every magnitude of the row \<open>NaN\<close>, and the row is returned as it is.
\<close>

theorem nonfinite_magnitudes_counterexample:
  "generateFullSpectrogram (NaN # replicate 1024 (Fin 0)) 44100 = [replicate 128 NaN]"
proof -
  have p: "passes 1025 0 = 1"
    by (simp add: passes_def windowSize_def hopSize_def)
  have "numAt (slice (NaN # replicate 1024 (Fin 0)) 0 (0 + windowSize)) 0 = NaN"
    by (simp add: slice_def numAt_def windowSize_def)
  from frameRow_NaN_sample [OF _ this]
  have "frameRow (NaN # replicate 1024 (Fin 0)) 0 = replicate 128 NaN"
    by (simp add: windowSize_def fftSize_def)
  then show ?thesis
    by (simp add: generateFullSpectrogram_rows p)
qed

text \<open>
  C5, as the code has it.  When every sample is finite, every magnitude is a finite number
  in \<open>[0, 1]\<close>; a \<open>NaN\<close> sample in a window makes every magnitude of that row \<open>NaN\<close>;
  and a \<open>NaN\<close> entry of the matrix is turned into magnitude \<open>0\<close> by the renderer, which
  reads every entry as \<open>value || 0\<close>.
\<close>

theorem nonfinite_magnitudes:
  "(list_all isFin audioData \<longrightarrow>
      list_all (list_all inUnit) (generateFullSpectrogram audioData sampleRate))
   \<and> (t < windowSize \<and> numAt (slice samples i (i + windowSize)) t = NaN \<longrightarrow>
        frameRow samples i = replicate fftSize NaN)
   \<and> (cellAt m x b = Some NaN \<longrightarrow> scaledAt m x b = Fin 0)"
  using generateFullSpectrogram_finite frameRow_NaN_sample scaledAt_NaN_entry by blast

theorem nonfinite_magnitudes_witness:
  "list_all isFin (replicate 1280 (Fin 0))
   \<and> generateFullSpectrogram (replicate 1280 (Fin 0)) 44100 \<noteq> []
   \<and> list_all (list_all inUnit) (generateFullSpectrogram (replicate 1280 (Fin 0)) 44100)
   \<and> 0 < windowSize
   \<and> numAt (slice (NaN # replicate 1024 (Fin 0)) 0 (0 + windowSize)) 0 = NaN
   \<and> frameRow (NaN # replicate 1024 (Fin 0)) 0 = replicate fftSize NaN
   \<and> cellAt [[NaN, Fin 1]] 0 0 = Some NaN
   \<and> scaledAt [[NaN, Fin 1]] 0 0 = Fin 0"
proof -
  have h1: "list_all isFin (replicate 1280 (Fin 0))"
    by (simp add: list_all_iff)
  have h2: "cellAt [[NaN, Fin 1]] 0 0 = Some NaN"
    by (simp add: cellAt_def)
  have "length (generateFullSpectrogram (replicate 1280 (Fin 0)) 44100) = 1"
    by (simp add: generateFullSpectrogram_rows passes_1280)
  then have ne: "generateFullSpectrogram (replicate 1280 (Fin 0)) 44100 \<noteq> []"
    by auto
  have h3: "0 < windowSize" by (simp add: windowSize_def)
  have h4: "numAt (slice (NaN # replicate 1024 (Fin 0)) 0 (0 + windowSize)) 0 = NaN"
    by (simp add: slice_def numAt_def windowSize_def)
  from nonfinite_magnitudes [of "replicate 1280 (Fin 0)" 44100 0
      "NaN # replicate 1024 (Fin 0)" 0 "[[NaN, Fin 1]]" 0 0] h1 h2 h3 h4 ne
  show ?thesis by blast
qed

section \<open>Pixel placement\<close>

lemma length_pixelStep [simp]: "length (pixelStep m w h p5 p95 x y d) = length d"
  by (simp add: pixelStep_def Let_def)

lemma length_fold_pixelStep [simp]:
  "length (fold (\<lambda>p. pixelStep m w h p5 p95 (fst p) (snd p)) ps d) = length d"
  by (induction ps arbitrary: d) simp_all

lemma pixelStep_other:
  assumes "i < (y * w + x) * 4 \<or> (y * w + x) * 4 + 3 < i"
  shows "pixelStep m w h p5 p95 x y d ! i = d ! i"
  using assms by (auto simp: pixelStep_def Let_def)

lemma pixelStep_own:
  assumes "(y * w + x) * 4 + 3 < length d" and "c < 4"
  shows "pixelStep m w h p5 p95 x y d ! ((y * w + x) * 4 + c) =
     toUint8Clamp (heatColor (scaledMagnitude p5 p95 (rawAt m x (h - 1 - y))) ! c)"
proof -
  from assms(2) consider "c = 0" | "c = 1" | "c = 2" | "c = 3" by linarith
  then show ?thesis
    using assms(1) by cases (simp_all add: pixelStep_def Let_def)
qed

lemma fold_pixelStep_other:
  assumes "\<forall>p\<in>set ps. i < (snd p * w + fst p) * 4 \<or> (snd p * w + fst p) * 4 + 3 < i"
  shows "fold (\<lambda>p. pixelStep m w h p5 p95 (fst p) (snd p)) ps d ! i = d ! i"
  using assms by (induction ps arbitrary: d) (simp_all add: pixelStep_other)

lemma cell_index_inj:
  fixes w :: nat
  assumes "x < w" and "x' < w" and "(y, x) \<noteq> (y', x')"
  shows "y * w + x \<noteq> y' * w + x'"
proof
  assume eq: "y * w + x = y' * w + x'"
  then have "(y * w + x) div w = (y' * w + x') div w" and "(y * w + x) mod w = (y' * w + x') mod w"
    by simp_all
  with assms(1,2) have "y = y'" and "x = x'" by simp_all
  with assms(3) show False by simp
qed

lemma quartets_apart:
  fixes w :: nat
  assumes "x < w" and "x' < w" and "(y, x) \<noteq> (y', x')" and "c < 4"
  shows "(y * w + x) * 4 + c < (y' * w + x') * 4 \<or> (y' * w + x') * 4 + 3 < (y * w + x) * 4 + c"
proof -
  have "k * 4 + c < k' * 4 \<or> k' * 4 + 3 < k * 4 + c" if "k \<noteq> k'" for k k' :: nat
    using that assms(4) by linarith
  from this [OF cell_index_inj [OF assms(1-3)]] show ?thesis .
qed

lemma fold_pixelStep_own:
  assumes "distinct ps" and "(x, y) \<in> set ps" and "\<forall>p\<in>set ps. fst p < w"
    and "(y * w + x) * 4 + 3 < length d" and "c < 4"
  shows "fold (\<lambda>p. pixelStep m w h p5 p95 (fst p) (snd p)) ps d ! ((y * w + x) * 4 + c) =
     toUint8Clamp (heatColor (scaledMagnitude p5 p95 (rawAt m x (h - 1 - y))) ! c)"
  using assms(1-4)
proof (induction ps arbitrary: d)
  case Nil
  then show ?case by simp
next
  case (Cons p ps)
  show ?case
  proof (cases "p = (x, y)")
    case True
    with Cons.prems(1) have notin: "(x, y) \<notin> set ps" by simp
    have xw: "x < w" using Cons.prems(2,3) by auto
    have "\<forall>q\<in>set ps. (y * w + x) * 4 + c < (snd q * w + fst q) * 4
          \<or> (snd q * w + fst q) * 4 + 3 < (y * w + x) * 4 + c"
    proof
      fix q assume q: "q \<in> set ps"
      with notin have "q \<noteq> (x, y)" by auto
      then have "(y, x) \<noteq> (snd q, fst q)" by (cases q) auto
      moreover have "fst q < w" using q Cons.prems(3) by simp
      ultimately show "(y * w + x) * 4 + c < (snd q * w + fst q) * 4
          \<or> (snd q * w + fst q) * 4 + 3 < (y * w + x) * 4 + c"
        using xw assms(5) by (intro quartets_apart) simp_all
    qed
    then have "fold (\<lambda>p. pixelStep m w h p5 p95 (fst p) (snd p)) ps
          (pixelStep m w h p5 p95 x y d) ! ((y * w + x) * 4 + c) =
        pixelStep m w h p5 p95 x y d ! ((y * w + x) * 4 + c)"
      by (rule fold_pixelStep_other)
    then show ?thesis
      using True pixelStep_own [OF Cons.prems(4) assms(5)] by simp
  next
    case False
    with Cons.prems have "distinct ps" "(x, y) \<in> set ps" "\<forall>p\<in>set ps. fst p < w"
      "(y * w + x) * 4 + 3 < length (pixelStep m w h p5 p95 (fst p) (snd p) d)"
      by auto
    from Cons.IH [OF this] show ?thesis by simp
  qed
qed

lemma pixel_in_buffer:
  fixes w h :: nat
  assumes "x < w" and "y < h"
  shows "(y * w + x) * 4 + 3 < w * h * 4"
proof -
  have "y * w + x < y * w + w" using assms(1) by simp
  also have "\<dots> = Suc y * w" by simp
  also have "\<dots> \<le> h * w" using assms(2) by (intro mult_le_mono1) simp
  finally have "y * w + x < w * h" by (simp add: mult.commute)
  moreover have "k * 4 + 3 < n * 4" if "k < n" for k n :: nat
    using that by linarith
  ultimately show ?thesis by blast
qed

lemma canvasData_pixel:
  assumes "canvasData m = Some img" and "x < imgWidth img" and "y < imgHeight img"
  shows "imgWidth img = length m" and "imgHeight img = length (m ! 0)"
    and "pixelAt img x y = map toUint8Clamp (heatColor (scaledAt m x (imgHeight img - 1 - y)))"
proof -
  define w where "w = length m"
  define h where "h = length (m ! 0)"
  define st where "st = collectStats m w h"
  define d where "d = fold (\<lambda>p. pixelStep m w h (p5Of st) (p95Of st) (fst p) (snd p))
      (List.product [0..<w] [0..<h]) (replicate (w * h * 4) 0)"
  from assms(1) have img: "img = \<lparr>imgWidth = w, imgHeight = h, imgData = d\<rparr>"
    by (simp add: canvasData_def Let_def fold_product w_def h_def st_def d_def split: if_splits)
  show iw: "imgWidth img = length m" and ih: "imgHeight img = length (m ! 0)"
    by (simp_all add: img w_def h_def)
  have xw: "x < w" and yh: "y < h" using assms(2,3) by (simp_all add: img)
  have len: "(y * w + x) * 4 + 3 < length (replicate (w * h * 4) (0::8 word))"
    using pixel_in_buffer [OF xw yh] by simp
  have mem: "(x, y) \<in> set (List.product [0..<w] [0..<h])" using xw yh by simp
  have dist: "distinct (List.product [0..<w] [0..<h])" by (simp add: distinct_product)
  have bound: "\<forall>p\<in>set (List.product [0..<w] [0..<h]). fst p < w" by auto
  have sc: "scaledMagnitude (p5Of st) (p95Of st) (rawAt m x (h - 1 - y)) = scaledAt m x (h - 1 - y)"
    by (simp add: scaledAt_def st_def w_def h_def Let_def)
  have px: "d ! ((y * w + x) * 4 + c) =
      toUint8Clamp (heatColor (scaledAt m x (h - 1 - y)) ! c)"
    if "c < 4" for c
    unfolding d_def sc [symmetric] by (rule fold_pixelStep_own [OF dist mem bound len that])
  have l4: "length (heatColor s) = 4" for s
    by (simp add: heatColor_def Let_def)
  have hc: "map toUint8Clamp (heatColor s) =
      [toUint8Clamp (heatColor s ! 0), toUint8Clamp (heatColor s ! 1),
       toUint8Clamp (heatColor s ! 2), toUint8Clamp (heatColor s ! 3)]" for s
    using l4 [of s] by (intro nth_equalityI) (auto simp: nth_Cons' less_Suc_eq numeral_eq_Suc)
  have sel: "imgData img = d" "imgWidth img = w" "imgHeight img = h"
    by (simp_all add: img)
  have p0: "d ! ((y * w + x) * 4) =
      toUint8Clamp (heatColor (scaledAt m x (h - 1 - y)) ! 0)"
    using px [of 0] by simp
  have p1: "d ! ((y * w + x) * 4 + 1) =
      toUint8Clamp (heatColor (scaledAt m x (h - 1 - y)) ! 1)"
    using px [of 1] by simp
  have p2: "d ! ((y * w + x) * 4 + 2) =
      toUint8Clamp (heatColor (scaledAt m x (h - 1 - y)) ! 2)"
    using px [of 2] by simp
  have p3: "d ! ((y * w + x) * 4 + 3) =
      toUint8Clamp (heatColor (scaledAt m x (h - 1 - y)) ! 3)"
    using px [of 3] by simp
  show "pixelAt img x y = map toUint8Clamp (heatColor (scaledAt m x (imgHeight img - 1 - y)))"
    unfolding pixelAt_def Let_def sel hc p0 p1 p2 p3 ..
qed


lemma collectStats_two_bins:
  "collectStats [[Fin (1/5), Fin (4/5)]] (Suc 0) 2 =
     \<lparr>maxValue = Fin (4/5), minValue = Fin (1/5), allValues = [Fin (1/5), Fin (4/5)]\<rparr>"
  by (simp add: collectStats_def statsStep_def rawAt_def cellAt_def js_gt_def Let_def
      eval_nat_numeral)

lemma percentiles_two_bins:
  "p5Of (collectStats [[Fin (1/5), Fin (4/5)]] (Suc 0) 2) = Fin (1/5)"
  "p95Of (collectStats [[Fin (1/5), Fin (4/5)]] (Suc 0) 2) = Fin (4/5)"
  by (simp_all add: collectStats_two_bins p5Of_def p95Of_def sortNumbers_def nthOpt_def
      index5_eq index95_eq compareFn_def jsub_def js_gt_def)

lemma scaledAt_two_bins:
  "scaledAt [[Fin (1/5), Fin (4/5)]] 0 (Suc 0) = Fin 1"
  "scaledAt [[Fin (1/5), Fin (4/5)]] 0 0 = Fin 0"
proof -
  let ?m = "[[Fin (1/5), Fin (4/5)]]"
  have wh: "length ?m = Suc 0" "length (?m ! 0) = 2" by simp_all
  have raw: "rawAt ?m 0 (Suc 0) = Fin (4/5)" "rawAt ?m 0 0 = Fin (1/5)"
    by (simp_all add: rawAt_def cellAt_def)
  show "scaledAt ?m 0 (Suc 0) = Fin 1"
    unfolding scaledAt_def wh
    by (simp add: percentiles_two_bins raw scaledMagnitude_def normalizedMagnitude_regular)
  show "scaledAt ?m 0 0 = Fin 0"
    unfolding scaledAt_def wh
    by (simp add: percentiles_two_bins raw scaledMagnitude_def normalizedMagnitude_regular)
qed

lemma heatColor_ends:
  "map toUint8Clamp (heatColor (Fin 1)) = [255, 0, 0, 255]"
  "map toUint8Clamp (heatColor (Fin 0)) = [0, 0, 0, 255]"
  by (simp_all add: heatColor_def jsub_def)

lemma canvasData_two_bins:
  "canvasData [[Fin (1/5), Fin (4/5)]] =
     Some \<lparr>imgWidth = 1, imgHeight = 2, imgData = [255, 0, 0, 255, 0, 0, 0, 255]\<rparr>"
proof -
  let ?m = "[[Fin (1/5), Fin (4/5)]]"
  have wh: "length ?m = Suc 0" "length (?m ! 0) = 2" by simp_all
  have raw: "rawAt ?m 0 (Suc 0) = Fin (4/5)" "rawAt ?m 0 0 = Fin (1/5)"
    by (simp_all add: rawAt_def cellAt_def)
  have hi: "heatColor (scaledMagnitude (Fin (1/5)) (Fin (4/5)) (Fin (4/5))) =
      [Fin 255, Fin 0, Fin 0, Fin 255]"
    by (simp add: scaledMagnitude_def normalizedMagnitude_regular heatColor_def jsub_def)
  have lo: "heatColor (scaledMagnitude (Fin (1/5)) (Fin (4/5)) (Fin (1/5))) =
      [Fin 0, Fin 0, Fin 0, Fin 255]"
    by (simp add: scaledMagnitude_def normalizedMagnitude_regular heatColor_def)
  show ?thesis
    by (simp only: canvasData_def Let_def wh percentiles_two_bins)
       (simp add: pixelStep_def raw hi lo Let_def eval_nat_numeral)
qed

text \<open>
  C8.  The renderer flips the frequency axis: in the image of a matrix of height \<open>H\<close>,
  pixel \<open>(x, y)\<close> holds the colour of the normalized value at row \<open>x\<close>, bin
  \<open>H - 1 - y\<close>; so pixel row \<open>0\<close> shows bin \<open>H - 1\<close> and pixel row \<open>H - 1\<close> shows
  bin \<open>0\<close>.
\<close>

theorem heatmap_axis_flip:
  assumes "canvasData m = Some img" and "x < imgWidth img" and "y < imgHeight img"
  shows "imgWidth img = length m \<and> imgHeight img = length (m ! 0)
    \<and> pixelAt img x y = map toUint8Clamp (heatColor (scaledAt m x (imgHeight img - 1 - y)))
    \<and> pixelAt img x 0 = map toUint8Clamp (heatColor (scaledAt m x (imgHeight img - 1)))
    \<and> pixelAt img x (imgHeight img - 1) = map toUint8Clamp (heatColor (scaledAt m x 0))"
proof -
  have h0: "0 < imgHeight img" and h1: "imgHeight img - 1 < imgHeight img"
    using assms(3) by simp_all
  show ?thesis
    using canvasData_pixel [OF assms] canvasData_pixel(3) [OF assms(1,2) h0]
      canvasData_pixel(3) [OF assms(1,2) h1]
    by simp
qed

theorem heatmap_axis_flip_witness:
  "canvasData [[Fin (1/5), Fin (4/5)]] =
      Some \<lparr>imgWidth = 1, imgHeight = 2, imgData = [255, 0, 0, 255, 0, 0, 0, 255]\<rparr>
   \<and> scaledAt [[Fin (1/5), Fin (4/5)]] 0 1 = Fin 1
   \<and> scaledAt [[Fin (1/5), Fin (4/5)]] 0 0 = Fin 0
   \<and> pixelAt \<lparr>imgWidth = 1, imgHeight = 2, imgData = [255, 0, 0, 255, 0, 0, 0, 255]\<rparr> 0 0
       = map toUint8Clamp (heatColor (scaledAt [[Fin (1/5), Fin (4/5)]] 0 1))
   \<and> pixelAt \<lparr>imgWidth = 1, imgHeight = 2, imgData = [255, 0, 0, 255, 0, 0, 0, 255]\<rparr> 0 1
       = map toUint8Clamp (heatColor (scaledAt [[Fin (1/5), Fin (4/5)]] 0 0))
   \<and> pixelAt \<lparr>imgWidth = 1, imgHeight = 2, imgData = [255, 0, 0, 255, 0, 0, 0, 255]\<rparr> 0 0
       = [255, 0, 0, 255]
   \<and> pixelAt \<lparr>imgWidth = 1, imgHeight = 2, imgData = [255, 0, 0, 255, 0, 0, 0, 255]\<rparr> 0 1
       = [0, 0, 0, 255]"
proof -
  let ?img = "\<lparr>imgWidth = 1, imgHeight = 2, imgData = [255, 0, 0, 255, 0, 0, 0, 255 :: 8 word]\<rparr>"
  have c: "canvasData [[Fin (1/5), Fin (4/5)]] = Some ?img"
    by (rule canvasData_two_bins)
  have x: "0 < imgWidth ?img" and y: "1 < imgHeight ?img" by simp_all
  from heatmap_axis_flip [OF c x y]
  have a: "pixelAt ?img 0 1 = map toUint8Clamp (heatColor (scaledAt [[Fin (1/5), Fin (4/5)]] 0 0))"
    and b: "pixelAt ?img 0 0 = map toUint8Clamp (heatColor (scaledAt [[Fin (1/5), Fin (4/5)]] 0 1))"
    by simp_all
  have s: "scaledAt [[Fin (1/5), Fin (4/5)]] 0 1 = Fin 1" "scaledAt [[Fin (1/5), Fin (4/5)]] 0 0 = Fin 0"
    using scaledAt_two_bins by simp_all
  have a': "pixelAt ?img 0 1 = [0, 0, 0, 255]"
    unfolding a s heatColor_ends ..
  have b': "pixelAt ?img 0 0 = [255, 0, 0, 255]"
    unfolding b s heatColor_ends ..
  from c s a b a' b' show ?thesis by (simp only: simp_thms)
qed

section \<open>Monotonicity of the normalization\<close>

lemma sorted_nth_le_iff:
  fixes S :: "real list"
  assumes "sorted S" and "i < length S"
  shows "(S ! i \<le> t) \<longleftrightarrow> i < length (filter (\<lambda>r. r \<le> t) S)"
proof
  assume le: "S ! i \<le> t"
  have "\<forall>r\<in>set (take (Suc i) S). r \<le> t"
  proof
    fix r assume "r \<in> set (take (Suc i) S)"
    then obtain j where j: "j < length (take (Suc i) S)" and r: "r = take (Suc i) S ! j"
      by (auto simp: in_set_conv_nth)
    then have "j \<le> i" and "r = S ! j" by simp_all
    with sorted_nth_mono [OF assms(1) _ assms(2)] le show "r \<le> t" by fastforce
  qed
  then have "filter (\<lambda>r. r \<le> t) (take (Suc i) S) = take (Suc i) S"
    by (simp only: filter_True)
  moreover have "filter (\<lambda>r. r \<le> t) S =
      filter (\<lambda>r. r \<le> t) (take (Suc i) S) @ filter (\<lambda>r. r \<le> t) (drop (Suc i) S)"
    by (simp only: filter_append [symmetric] append_take_drop_id)
  ultimately have "length (filter (\<lambda>r. r \<le> t) S) \<ge> length (take (Suc i) S)"
    by (simp only: length_append)
  then show "i < length (filter (\<lambda>r. r \<le> t) S)"
    using assms(2) by simp
next
  assume lt: "i < length (filter (\<lambda>r. r \<le> t) S)"
  show "S ! i \<le> t"
  proof (rule ccontr)
    assume "\<not> S ! i \<le> t"
    then have gt: "t < S ! i" by simp
    have "\<forall>r\<in>set (drop i S). \<not> r \<le> t"
    proof
      fix r assume "r \<in> set (drop i S)"
      then obtain k where k: "k < length (drop i S)" and r: "r = drop i S ! k"
        by (auto simp: in_set_conv_nth)
      then have "i + k < length S" and "r = S ! (i + k)" by simp_all
      with sorted_nth_mono [OF assms(1), of i "i + k"] gt show "\<not> r \<le> t" by simp
    qed
    then have "filter (\<lambda>r. r \<le> t) (drop i S) = []"
      by (simp only: filter_False)
    moreover have "filter (\<lambda>r. r \<le> t) S =
        filter (\<lambda>r. r \<le> t) (take i S) @ filter (\<lambda>r. r \<le> t) (drop i S)"
      by (simp only: filter_append [symmetric] append_take_drop_id)
    ultimately have "length (filter (\<lambda>r. r \<le> t) S) = length (filter (\<lambda>r. r \<le> t) (take i S))"
      by simp
    also have "\<dots> \<le> length (take i S)" by (rule length_filter_le)
    also have "\<dots> \<le> i" by simp
    finally show False using lt by simp
  qed
qed

lemma length_filter_mset: "length (filter P xs) = size (filter_mset P (mset xs))"
  by (simp only: mset_filter [symmetric] size_mset)

lemma length_filter_sort:
  fixes xs :: "real list"
  shows "length (filter P (sort xs)) = length (filter P xs)"
  by (simp add: length_filter_mset)

lemma pct95_le_iff:
  assumes "posValues xs \<noteq> []"
  shows "(pct95 xs \<le> t) \<longleftrightarrow> index95 (length (posValues xs)) < countUpTo xs t"
proof -
  have "index95 (length (posValues xs)) < length (sort (posValues xs))"
    using assms by (simp add: index95_less)
  from sorted_nth_le_iff [OF sorted_sort this, of t]
  show ?thesis by (simp add: pct95_def countUpTo_def length_filter_sort)
qed

lemma pct5_le_iff:
  assumes "posValues xs \<noteq> []"
  shows "(pct5 xs \<le> t) \<longleftrightarrow> index5 (length (posValues xs)) < countUpTo xs t"
proof -
  have "index95 (length (posValues xs)) < length (posValues xs)"
    using assms by (simp add: index95_less)
  then have "index5 (length (posValues xs)) < length (sort (posValues xs))"
    using index5_le_index95 [of "length (posValues xs)"] by simp
  from sorted_nth_le_iff [OF sorted_sort this, of t]
  show ?thesis by (simp add: pct5_def countUpTo_def length_filter_sort)
qed

lemma countUpTo_mset:
  assumes "mset xs = add_mset v R"
  shows "countUpTo xs t =
     (if 0 < v \<and> v \<le> t then 1 else 0) + size (filter_mset (\<lambda>r. 0 < r \<and> r \<le> t) R)"
proof -
  have "countUpTo xs t = size (filter_mset (\<lambda>r. 0 < r \<and> r \<le> t) (mset xs))"
    by (simp add: countUpTo_def posValues_def length_filter_mset conj_commute)
  then show ?thesis by (simp add: assms)
qed

lemma length_posValues_mset:
  assumes "mset xs = add_mset v R"
  shows "length (posValues xs) = (if 0 < v then 1 else 0) + size (filter_mset (\<lambda>r. 0 < r) R)"
proof -
  have "length (posValues xs) = size (filter_mset (\<lambda>r. 0 < r) (mset xs))"
    by (simp add: posValues_def length_filter_mset)
  then show ?thesis by (simp add: assms)
qed


lemma posValues_nonempty_mset:
  assumes "mset xs = add_mset v R" and "0 < v"
  shows "posValues xs \<noteq> []"
  using length_posValues_mset [OF assms(1)] assms(2) by auto

lemma length_posValues_replace:
  assumes "mset xs = add_mset v R" and "mset xs' = add_mset v' R" and "0 < v" and "0 < v'"
  shows "length (posValues xs') = length (posValues xs)"
  using length_posValues_mset [OF assms(1)] length_posValues_mset [OF assms(2)] assms(3,4)
  by simp

lemma countUpTo_replace_le:
  assumes "mset xs = add_mset v R" and "mset xs' = add_mset v' R" and "0 < v" and "v \<le> v'"
  shows "countUpTo xs' t \<le> countUpTo xs t"
  using assms(3,4) by (simp add: countUpTo_mset [OF assms(1)] countUpTo_mset [OF assms(2)])

lemma countUpTo_replace_eq:
  assumes "mset xs = add_mset v R" and "mset xs' = add_mset v' R" and "0 < v" and "v \<le> v'"
    and "t < v \<or> v' \<le> t"
  shows "countUpTo xs' t = countUpTo xs t"
  using assms(3,4,5) by (auto simp: countUpTo_mset [OF assms(1)] countUpTo_mset [OF assms(2)])

lemma pct5_replace_mono:
  assumes "mset xs = add_mset v R" and "mset xs' = add_mset v' R" and "0 < v" and "v \<le> v'"
  shows "pct5 xs \<le> pct5 xs'"
proof -
  have v': "0 < v'" using assms(3,4) by simp
  note ne = posValues_nonempty_mset [OF assms(1,3)]
  note ne' = posValues_nonempty_mset [OF assms(2) v']
  note n = length_posValues_replace [OF assms(1,2,3) v']
  have "index5 (length (posValues xs')) < countUpTo xs' (pct5 xs')"
    using pct5_le_iff [OF ne', of "pct5 xs'"] by simp
  also have "\<dots> \<le> countUpTo xs (pct5 xs')"
    by (rule countUpTo_replace_le [OF assms])
  finally show ?thesis
    using pct5_le_iff [OF ne, of "pct5 xs'"] by (simp add: n)
qed

lemma pct95_replace_mono:
  assumes "mset xs = add_mset v R" and "mset xs' = add_mset v' R" and "0 < v" and "v \<le> v'"
  shows "pct95 xs \<le> pct95 xs'"
proof -
  have v': "0 < v'" using assms(3,4) by simp
  note ne = posValues_nonempty_mset [OF assms(1,3)]
  note ne' = posValues_nonempty_mset [OF assms(2) v']
  note n = length_posValues_replace [OF assms(1,2,3) v']
  have "index95 (length (posValues xs')) < countUpTo xs' (pct95 xs')"
    using pct95_le_iff [OF ne', of "pct95 xs'"] by simp
  also have "\<dots> \<le> countUpTo xs (pct95 xs')"
    by (rule countUpTo_replace_le [OF assms])
  finally show ?thesis
    using pct95_le_iff [OF ne, of "pct95 xs'"] by (simp add: n)
qed

lemma pct5_unchanged:
  assumes "mset xs = add_mset v R" and "mset xs' = add_mset v' R" and "0 < v" and "v \<le> v'"
    and "pct5 xs < v"
  shows "pct5 xs' = pct5 xs"
proof -
  have v': "0 < v'" using assms(3,4) by simp
  note ne = posValues_nonempty_mset [OF assms(1,3)]
  note ne' = posValues_nonempty_mset [OF assms(2) v']
  note n = length_posValues_replace [OF assms(1,2,3) v']
  have "index5 (length (posValues xs)) < countUpTo xs (pct5 xs)"
    using pct5_le_iff [OF ne, of "pct5 xs"] by simp
  also have "countUpTo xs (pct5 xs) = countUpTo xs' (pct5 xs)"
    using countUpTo_replace_eq [OF assms(1-4), of "pct5 xs"] assms(5) by simp
  finally have "pct5 xs' \<le> pct5 xs"
    using pct5_le_iff [OF ne', of "pct5 xs"] by (simp add: n)
  with pct5_replace_mono [OF assms(1-4)] show ?thesis by simp
qed

lemma pct95_unchanged:
  assumes "mset xs = add_mset v R" and "mset xs' = add_mset v' R" and "0 < v" and "v \<le> v'"
    and "v' < pct95 xs'"
  shows "v' < pct95 xs" and "pct95 xs' = pct95 xs"
proof -
  have v': "0 < v'" using assms(3,4) by simp
  note ne = posValues_nonempty_mset [OF assms(1,3)]
  note ne' = posValues_nonempty_mset [OF assms(2) v']
  note n = length_posValues_replace [OF assms(1,2,3) v']
  have "\<not> index95 (length (posValues xs')) < countUpTo xs' v'"
    using pct95_le_iff [OF ne', of v'] assms(5) by simp
  moreover have "countUpTo xs' v' = countUpTo xs v'"
    by (rule countUpTo_replace_eq [OF assms(1-4)]) simp
  ultimately have "\<not> pct95 xs \<le> v'"
    using pct95_le_iff [OF ne, of v'] by (simp add: n)
  then show lt: "v' < pct95 xs" by simp
  have "index95 (length (posValues xs)) < countUpTo xs (pct95 xs)"
    using pct95_le_iff [OF ne, of "pct95 xs"] by simp
  also have "countUpTo xs (pct95 xs) = countUpTo xs' (pct95 xs)"
    using countUpTo_replace_eq [OF assms(1-4), of "pct95 xs"] lt by simp
  finally have "pct95 xs' \<le> pct95 xs"
    using pct95_le_iff [OF ne', of "pct95 xs"] by (simp add: n)
  with pct95_replace_mono [OF assms(1-4)] show "pct95 xs' = pct95 xs" by simp
qed

lemma normalized_replace_mono:
  assumes "mset xs = add_mset v R" and "mset xs' = add_mset v' R" and "0 < v" and "v \<le> v'"
    and "pct5 xs < pct95 xs" and "pct5 xs' < pct95 xs'"
  shows "(max (pct5 xs) (min (pct95 xs) v) - pct5 xs) / (pct95 xs - pct5 xs)
      \<le> (max (pct5 xs') (min (pct95 xs') v') - pct5 xs') / (pct95 xs' - pct5 xs')"
proof (cases "v \<le> pct5 xs")
  case True
  then have "max (pct5 xs) (min (pct95 xs) v) = pct5 xs"
    using assms(5) by simp
  moreover have "0 \<le> (max (pct5 xs') (min (pct95 xs') v') - pct5 xs') / (pct95 xs' - pct5 xs')"
    using assms(6) by (intro divide_nonneg_pos) simp_all
  ultimately show ?thesis by simp
next
  case False
  then have a: "pct5 xs < v" by simp
  note a' = pct5_unchanged [OF assms(1-4) a]
  show ?thesis
  proof (cases "v' < pct95 xs'")
    case True
    note b = pct95_unchanged [OF assms(1-4) True]
    have "max (pct5 xs) (min (pct95 xs) v) = v" "max (pct5 xs) (min (pct95 xs) v') = v'"
      using a b(1) assms(4) by simp_all
    then show ?thesis
      using assms(4,5) by (simp add: a' b(2) divide_right_mono)
  next
    case False
    then have "max (pct5 xs') (min (pct95 xs') v') = pct95 xs'"
      using assms(6) by simp
    then have "(max (pct5 xs') (min (pct95 xs') v') - pct5 xs') / (pct95 xs' - pct5 xs') = 1"
      using assms(6) by simp
    moreover have "max (pct5 xs) (min (pct95 xs) v) - pct5 xs \<le> pct95 xs - pct5 xs"
      using assms(5) by simp
    then have "(max (pct5 xs) (min (pct95 xs) v) - pct5 xs) / (pct95 xs - pct5 xs) \<le> 1"
      using assms(5) by (simp add: divide_le_eq)
    ultimately show ?thesis by simp
  qed
qed


lemma rawAt_update:
  assumes "x < length m" and "b < length (m ! x)"
  shows "rawAt (m[x := (m ! x)[b := Fin v']]) x' y' =
     (if x' = x \<and> y' = b then Fin v' else rawAt m x' y')"
proof (cases "x' = x")
  case True
  show ?thesis
  proof (cases "y' = b")
    case True
    with \<open>x' = x\<close> assms show ?thesis
      by (simp add: rawAt_def cellAt_def)
  next
    case False
    with \<open>x' = x\<close> assms show ?thesis
      by (simp add: rawAt_def cellAt_def)
  qed
next
  case False
  then show ?thesis
    by (simp add: rawAt_def cellAt_def)
qed

lemma mset_map_replace:
  assumes "distinct ps" and "p0 \<in> set ps" and "\<forall>p\<in>set ps. p \<noteq> p0 \<longrightarrow> g' p = g p"
  shows "\<exists>R. mset (map g ps) = add_mset (g p0) R \<and> mset (map g' ps) = add_mset (g' p0) R"
  using assms
proof (induction ps)
  case Nil
  then show ?case by simp
next
  case (Cons p qs)
  show ?case
  proof (cases "p = p0")
    case True
    with Cons.prems have "\<forall>q\<in>set qs. g' q = g q" by auto
    then have "map g' qs = map g qs" by (intro map_cong) simp_all
    then have "mset (map g (p # qs)) = add_mset (g p0) (mset (map g qs))"
      and "mset (map g' (p # qs)) = add_mset (g' p0) (mset (map g qs))"
      using True by (simp_all only: list.map mset.simps)
    then show ?thesis by blast
  next
    case False
    with Cons.prems have "distinct qs" "p0 \<in> set qs" "\<forall>q\<in>set qs. q \<noteq> p0 \<longrightarrow> g' q = g q"
      and gp: "g' p = g p"
      by auto
    from Cons.IH [OF this(1-3)] obtain R where
      "mset (map g qs) = add_mset (g p0) R" "mset (map g' qs) = add_mset (g' p0) R"
      by blast
    then have "mset (map g (p # qs)) = add_mset (g p0) (add_mset (g p) R)"
      and "mset (map g' (p # qs)) = add_mset (g' p0) (add_mset (g p) R)"
      by (simp_all add: gp)
    then show ?thesis by blast
  qed
qed

lemma realCells_update:
  assumes "x < length m" and "b < length (m ! x)" and "x < w" and "b < h"
  shows "\<exists>R. mset (realCells m w h) = add_mset (toReal (rawAt m x b)) R
    \<and> mset (realCells (m[x := (m ! x)[b := Fin v']]) w h) = add_mset v' R"
proof -
  let ?m' = "m[x := (m ! x)[b := Fin v']]"
  let ?g = "\<lambda>p. toReal (rawAt m (fst p) (snd p))"
  let ?g' = "\<lambda>p. toReal (rawAt ?m' (fst p) (snd p))"
  let ?ps = "List.product [0..<w] [0..<h]"
  have d: "distinct ?ps" by (simp add: distinct_product)
  have mem: "(x, b) \<in> set ?ps" using assms(3,4) by simp
  have off: "\<forall>p\<in>set ?ps. p \<noteq> (x, b) \<longrightarrow> ?g' p = ?g p"
    by (auto simp: rawAt_update [OF assms(1,2)])
  from mset_map_replace [OF d mem off] obtain R where
    "mset (map ?g ?ps) = add_mset (?g (x, b)) R" "mset (map ?g' ?ps) = add_mset (?g' (x, b)) R"
    by blast
  moreover have "?g' (x, b) = v'"
    by (simp add: rawAt_update [OF assms(1,2)])
  moreover have "realCells m w h = map ?g ?ps" "realCells ?m' w h = map ?g' ?ps"
    by (simp_all add: realCells_def cellValues_def o_def)
  ultimately show ?thesis by auto
qed

lemma noInfinity_update:
  assumes "noInfinity m" and "x < length m"
  shows "noInfinity (m[x := (m ! x)[b := Fin v']])"
proof -
  have row: "list_all notInf ((m ! x)[b := Fin v'])"
  proof -
    have "m ! x \<in> set m" using assms(2) by simp
    with assms(1) have "\<forall>v\<in>set (m ! x). notInf v"
      by (auto simp: noInfinity_def list_all_iff)
    moreover have "set ((m ! x)[b := Fin v']) \<subseteq> insert (Fin v') (set (m ! x))"
      by (rule set_update_subset_insert)
    ultimately show ?thesis by (auto simp: list_all_iff)
  qed
  have "set (m[x := (m ! x)[b := Fin v']]) \<subseteq> insert ((m ! x)[b := Fin v']) (set m)"
    by (rule set_update_subset_insert)
  with assms(1) row show ?thesis
    by (auto simp: noInfinity_def list_all_iff)
qed

lemma js_lt_NaN_right [simp]: "js_lt a NaN = False"
  by (cases a) simp_all

lemma scaledAt_update_not_less:
  assumes "noInfinity m" and "x < length m" and "b < length (m ! 0)" and "b < length (m ! x)"
    and "toReal (rawAt m x b) \<le> v'"
  shows "\<not> js_lt (scaledAt (m[x := (m ! x)[b := Fin v']]) x b) (scaledAt m x b)"
proof -
  define m' where "m' = m[x := (m ! x)[b := Fin v']]"
  define v where "v = toReal (rawAt m x b)"
  define xs where "xs = realCells m (length m) (length (m ! 0))"
  define xs' where "xs' = realCells m' (length m) (length (m ! 0))"
  have len: "length m' = length m" and len0: "length (m' ! 0) = length (m ! 0)"
    using assms(2) by (simp_all add: m'_def nth_list_update)
  have inf': "noInfinity m'"
    unfolding m'_def by (rule noInfinity_update [OF assms(1,2)])
  have raw': "toReal (rawAt m' x b) = v'"
    by (simp add: m'_def rawAt_update [OF assms(2,4)])
  have old: "scaledAt m x b =
      (if v \<le> 0 then Fin 0
       else if pct5 xs = pct95 xs then NaN
       else Fin (sqrt ((max (pct5 xs) (min (pct95 xs) v) - pct5 xs) / (pct95 xs - pct5 xs))))"
    using scaledAt_real [OF assms(1-3)] by (simp add: Let_def xs_def v_def)
  have new: "scaledAt m' x b =
      (if v' \<le> 0 then Fin 0
       else if pct5 xs' = pct95 xs' then NaN
       else Fin (sqrt ((max (pct5 xs') (min (pct95 xs') v') - pct5 xs') / (pct95 xs' - pct5 xs'))))"
    using scaledAt_real [OF inf', of x b] assms(2,3)
    by (simp add: Let_def xs'_def len len0 raw')
  from realCells_update [OF assms(2,4,2,3), of v'] obtain R where
    ms: "mset xs = add_mset v R" and ms': "mset xs' = add_mset v' R"
    by (auto simp: xs_def xs'_def m'_def v_def)
  have nonneg: "0 \<le> (max (pct5 xs') (min (pct95 xs') v') - pct5 xs') / (pct95 xs' - pct5 xs')"
    if "0 < v'" and "pct5 xs' \<noteq> pct95 xs'"
  proof -
    from pct5_le_pct95 [OF posValues_nonempty_mset [OF ms' that(1)]] that(2)
    have "pct5 xs' < pct95 xs'" by simp
    then show ?thesis by (intro divide_nonneg_pos) simp_all
  qed
  show ?thesis
  proof (cases "v \<le> 0")
    case True
    then show ?thesis
      using nonneg by (auto simp: m'_def [symmetric] old new not_less)
  next
    case False
    then have vpos: "0 < v" by simp
    then have v'pos: "0 < v'" using assms(5) by (simp add: v_def)
    show ?thesis
    proof (cases "pct5 xs = pct95 xs \<or> pct5 xs' = pct95 xs'")
      case True
      then show ?thesis
        using vpos v'pos by (auto simp: m'_def [symmetric] old new)
    next
      case False
      then have lt: "pct5 xs < pct95 xs" and lt': "pct5 xs' < pct95 xs'"
        using pct5_le_pct95 [OF posValues_nonempty_mset [OF ms vpos]]
          pct5_le_pct95 [OF posValues_nonempty_mset [OF ms' v'pos]]
        by simp_all
      have "v \<le> v'" using assms(5) by (simp add: v_def)
      from normalized_replace_mono [OF ms ms' vpos this lt lt']
      show ?thesis
        using vpos v'pos False by (simp add: m'_def [symmetric] old new not_less)
    qed
  qed
qed


lemma scaledAt_three_bins:
  assumes "1/5 < u" and "u < 4/5"
  shows "scaledAt [[Fin (1/5), Fin u, Fin (4/5)]] 0 1 = Fin (sqrt ((u - 1/5) / (3/5)))"
proof -
  let ?m = "[[Fin (1/5), Fin u, Fin (4/5)]]"
  define L where "L = [1/5, u, 4/5]"
  have inf: "noInfinity ?m" by (simp add: noInfinity_def)
  have upos: "0 < u" using assms(1) by simp
  have cells: "realCells ?m (length ?m) (length (?m ! 0)) = L"
    using upos by (simp add: realCells_def cellValues_def rawAt_def cellAt_def eval_nat_numeral L_def)
  have pos: "posValues L = L"
    using upos by (simp add: posValues_def L_def)
  have srt: "sort L = L"
    using assms by (simp add: L_def insort_is_Cons)
  have len: "length L = 3" by (simp add: L_def)
  have i5: "index5 3 = 0" and i95: "index95 3 = 2"
    by (simp_all add: index5_eq index95_eq)
  have p5: "pct5 L = 1/5"
    unfolding pct5_def pos srt len i5 by (simp add: L_def)
  have p95: "pct95 L = 4/5"
    unfolding pct95_def pos srt len i95 by (simp add: L_def)
  have raw: "rawAt ?m 0 1 = Fin u"
    using upos by (simp add: rawAt_def cellAt_def)
  have q: "(max (1/5) (min (4/5) u) - 1/5) / (4/5 - 1/5) = (u - 1/5) / (3/5)"
    using assms by (simp add: max_def min_def)
  note r = scaledAt_real [OF inf, of 0 1, unfolded cells Let_def raw p5 p95 toReal.simps q]
  show ?thesis
    using upos by (subst r) simp_all
qed


text \<open>
  C7.  Raising the magnitude at one position of a matrix (without infinite entries), all
  other entries fixed, never lowers the normalized value of that position: the new value
  is never less than the old one, and where both are numbers the old one is at most the
  new one.  They are numbers whenever the two percentiles differ, before and after; with
  equal percentiles the normalized value of a positive entry is \<open>NaN\<close>, which is not
  less than any number.  A value clamped at \<open>p95\<close> stays at \<open>1\<close>.
\<close>

theorem normalization_monotone:
  assumes "noInfinity m" and "x < length m" and "b < length (m ! 0)" and "b < length (m ! x)"
    and "toReal (rawAt m x b) \<le> v'"
  shows "\<not> js_lt (scaledAt (m[x := (m ! x)[b := Fin v']]) x b) (scaledAt m x b)
    \<and> (\<forall>r r'. scaledAt m x b = Fin r \<and> scaledAt (m[x := (m ! x)[b := Fin v']]) x b = Fin r'
          \<longrightarrow> r \<le> r')
    \<and> (pct5 (realCells m (length m) (length (m ! 0)))
          \<noteq> pct95 (realCells m (length m) (length (m ! 0)))
        \<and> pct5 (realCells (m[x := (m ! x)[b := Fin v']]) (length m) (length (m ! 0)))
          \<noteq> pct95 (realCells (m[x := (m ! x)[b := Fin v']]) (length m) (length (m ! 0)))
        \<longrightarrow> inUnit (scaledAt m x b) \<and> inUnit (scaledAt (m[x := (m ! x)[b := Fin v']]) x b))"
proof -
  let ?m' = "m[x := (m ! x)[b := Fin v']]"
  note nl = scaledAt_update_not_less [OF assms]
  have num: "r \<le> r'" if "scaledAt m x b = Fin r" and "scaledAt ?m' x b = Fin r'" for r r'
    using nl that by simp
  have len: "length ?m' = length m" and len0: "length (?m' ! 0) = length (m ! 0)"
    using assms(2) by (simp_all add: nth_list_update)
  have inf': "noInfinity ?m'"
    by (rule noInfinity_update [OF assms(1,2)])
  have unit: "inUnit (scaledAt m x b) \<and> inUnit (scaledAt ?m' x b)"
    if "pct5 (realCells m (length m) (length (m ! 0)))
          \<noteq> pct95 (realCells m (length m) (length (m ! 0)))"
      and "pct5 (realCells ?m' (length m) (length (m ! 0)))
          \<noteq> pct95 (realCells ?m' (length m) (length (m ! 0)))"
    using scaledAt_unit [OF assms(1-3) that(1)] scaledAt_unit [OF inf', of x b] assms(2,3) that(2)
    by (simp add: len len0)
  from nl num unit show ?thesis by blast
qed

theorem normalization_monotone_witness:
  "noInfinity [[Fin (1/5), Fin (1/2), Fin (4/5)]]
   \<and> 0 < length [[Fin (1/5), Fin (1/2), Fin (4/5)]]
   \<and> 1 < length ([[Fin (1/5), Fin (1/2), Fin (4/5)]] ! 0)
   \<and> toReal (rawAt [[Fin (1/5), Fin (1/2), Fin (4/5)]] 0 1) \<le> 3/5
   \<and> [[Fin (1/5), Fin (1/2), Fin (4/5)]]
        [0 := ([[Fin (1/5), Fin (1/2), Fin (4/5)]] ! 0)[1 := Fin (3/5)]]
       = [[Fin (1/5), Fin (3/5), Fin (4/5)]]
   \<and> scaledAt [[Fin (1/5), Fin (1/2), Fin (4/5)]] 0 1 = Fin (sqrt (1/2))
   \<and> scaledAt [[Fin (1/5), Fin (3/5), Fin (4/5)]] 0 1 = Fin (sqrt (2/3))
   \<and> \<not> js_lt (scaledAt [[Fin (1/5), Fin (3/5), Fin (4/5)]] 0 1)
              (scaledAt [[Fin (1/5), Fin (1/2), Fin (4/5)]] 0 1)"
proof -
  let ?m = "[[Fin (1/5), Fin (1/2), Fin (4/5)]]"
  have h1: "noInfinity ?m" by (simp add: noInfinity_def)
  have h2: "0 < length ?m" and h3: "1 < length (?m ! 0)" by simp_all
  have h5: "toReal (rawAt ?m 0 1) \<le> 3/5" by (simp add: rawAt_def cellAt_def)
  have upd: "?m[0 := (?m ! 0)[1 := Fin (3/5)]] = [[Fin (1/5), Fin (3/5), Fin (4/5)]]"
    by simp
  have s1: "scaledAt ?m 0 1 = Fin (sqrt (1/2))"
    using scaledAt_three_bins [of "1/2"] by simp
  have s2: "scaledAt [[Fin (1/5), Fin (3/5), Fin (4/5)]] 0 1 = Fin (sqrt (2/3))"
    using scaledAt_three_bins [of "3/5"] by simp
  from normalization_monotone [OF h1 h2 h3 h3 h5]
  have nl: "\<not> js_lt (scaledAt [[Fin (1/5), Fin (3/5), Fin (4/5)]] 0 1) (scaledAt ?m 0 1)"
    unfolding upd by blast
  from h1 h2 h3 h5 upd s1 s2 nl show ?thesis by (simp only: simp_thms)
qed

end
